theory Spec2Isabelle
  imports Complex_Main "HOL-Library.Extended_Nat" "HOL-Library.Multiset"
begin

section \<open>Numbers, steps and results\<close>

text \<open>
  The scheduler is the TypeScript class \<open>OCRProcessor\<close>, the worker pool the class
  \<open>PathfinderUtilityPool\<close> (\<open>app/workers/pathfinder-utility.ts\<close>). A JavaScript
  number is modelled by \<open>jsnum\<close>: a finite value is a 64-bit double, held as the
  rational it denotes, and the two infinities and NaN are values of their own, because
  the source initialises \<open>distanceSeconds\<close> to NaN and divides by a distance that may be
  zero. The sign of zero is outside the model.
\<close>

datatype jsnum = Fin rat | PosInf | NegInf | NaN

text \<open>
  Rounding of an exact result to a double, as IEEE 754 prescribes for division and
  subtraction: to the nearest double, a tie to the one with an even significand, with
  gradual underflow below \<open>2^-1022\<close> and overflow to an infinity from \<open>2^1024\<close> on.
  \<open>pow2 e\<close> is \<open>2^e\<close>, \<open>bit_length n\<close> the number of binary digits of \<open>n\<close>, and
  \<open>ilog2 q\<close> the exponent \<open>e\<close> with \<open>2^e \<le> q < 2^(e+1)\<close> for a positive \<open>q\<close>.
\<close>

definition pow2 :: "int \<Rightarrow> rat" where
  "pow2 e = (if 0 \<le> e then 2 ^ nat e else 1 / 2 ^ nat (- e))"

function bit_length :: "int \<Rightarrow> int" where
  "bit_length n = (if n \<le> 0 then 0 else 1 + bit_length (n div 2))"
  by pat_completeness auto
termination
  by (relation "measure nat") auto

declare bit_length.simps [simp del]

definition ilog2 :: "rat \<Rightarrow> int" where
  "ilog2 q =
     (let (n, d) = quotient_of q;
          e = bit_length n - bit_length d
      in if pow2 e \<le> q then e else e - 1)"

definition round_half_even :: "rat \<Rightarrow> int" where
  "round_half_even m =
     (let f = \<lfloor>m\<rfloor>; r = m - of_int f
      in if r < 1 / 2 then f else if 1 / 2 < r then f + 1 else if even f then f else f + 1)"

definition round_double :: "rat \<Rightarrow> jsnum" where
  "round_double q =
     (if q = 0 then Fin 0
      else
        let a = \<bar>q\<bar>;
            e = max (ilog2 a) (- 1022);
            quantum = pow2 (e - 52);
            v = of_int (round_half_even (a / quantum)) * quantum
        in if pow2 1024 \<le> v then (if 0 < q then PosInf else NegInf)
           else Fin (if 0 < q then v else - v))"

text \<open>\<open>a / b\<close>\<close>

fun js_div :: "jsnum \<Rightarrow> jsnum \<Rightarrow> jsnum" where
  "js_div NaN _ = NaN"
| "js_div _ NaN = NaN"
| "js_div (Fin a) (Fin b) =
     (if b = 0 then (if a = 0 then NaN else if 0 < a then PosInf else NegInf)
      else round_double (a / b))"
| "js_div (Fin a) PosInf = Fin 0"
| "js_div (Fin a) NegInf = Fin 0"
| "js_div PosInf (Fin b) = (if 0 \<le> b then PosInf else NegInf)"
| "js_div NegInf (Fin b) = (if 0 \<le> b then NegInf else PosInf)"
| "js_div PosInf PosInf = NaN"
| "js_div PosInf NegInf = NaN"
| "js_div NegInf PosInf = NaN"
| "js_div NegInf NegInf = NaN"

text \<open>\<open>a - b\<close>\<close>

fun js_sub :: "jsnum \<Rightarrow> jsnum \<Rightarrow> jsnum" where
  "js_sub NaN _ = NaN"
| "js_sub _ NaN = NaN"
| "js_sub (Fin a) (Fin b) = round_double (a - b)"
| "js_sub (Fin a) PosInf = NegInf"
| "js_sub (Fin a) NegInf = PosInf"
| "js_sub PosInf (Fin b) = PosInf"
| "js_sub NegInf (Fin b) = NegInf"
| "js_sub PosInf PosInf = NaN"
| "js_sub PosInf NegInf = PosInf"
| "js_sub NegInf PosInf = NegInf"
| "js_sub NegInf NegInf = NaN"

text \<open>\<open>a > b\<close>: false as soon as one side is NaN.\<close>

fun js_gt :: "jsnum \<Rightarrow> jsnum \<Rightarrow> bool" where
  "js_gt NaN _ = False"
| "js_gt _ NaN = False"
| "js_gt (Fin a) (Fin b) = (b < a)"
| "js_gt (Fin a) PosInf = False"
| "js_gt (Fin a) NegInf = True"
| "js_gt PosInf (Fin b) = True"
| "js_gt NegInf (Fin b) = False"
| "js_gt PosInf PosInf = False"
| "js_gt PosInf NegInf = True"
| "js_gt NegInf PosInf = False"
| "js_gt NegInf NegInf = False"

text \<open>\<open>a >= b\<close>, used to state that a value did not decrease.\<close>

definition js_ge :: "jsnum \<Rightarrow> jsnum \<Rightarrow> bool" where
  "js_ge a b = (a \<noteq> NaN \<and> b \<noteq> NaN \<and> \<not> js_gt b a)"

text \<open>The union type \<open>Step\<close> of \<open>config/types\<close>: location, item and distance.\<close>

datatype Step =
    Teleport string jsnum
  | Buy string string jsnum
  | Sell string string jsnum
  | Return string jsnum

text \<open>Interface \<open>FindBestResult\<close>: fields \<open>bounties\<close>, \<open>kp\<close>, \<open>actions\<close>, \<open>distance\<close>.\<close>

record FindBestResult =
  bounties :: "string list"
  result_kp :: jsnum
  actions :: "Step list"
  distance :: jsnum

text \<open>Interface \<open>ComboResult\<close> of the worker pool.\<close>

record ComboResult =
  combo :: "string list"
  combo_kp :: jsnum
  combo_actions :: "Step list"
  combo_distance :: jsnum

text \<open>
  What the pool's \<open>runOnProcess\<close> and \<open>findBest\<close> resolve with: one best route, or a
  list of results. The single-process path of \<open>findBest\<close> hands a list on where its
  caller expects a \<open>FindBestResult\<close>, so the completion handler of the scheduler reads
  \<open>bounties\<close>, \<open>kp\<close>, \<open>actions\<close> and \<open>distance\<close> of either; on a list each of them is
  \<open>undefined\<close>. A value that can be \<open>undefined\<close> has an option type, \<open>None\<close> being
  \<open>undefined\<close>, and \<open>to_number\<close> is its conversion to a number.
\<close>

datatype run_result = Single FindBestResult | Many "ComboResult list"

fun resp_bounties :: "run_result \<Rightarrow> string list option" where
  "resp_bounties (Single res) = Some (bounties res)"
| "resp_bounties (Many rs) = None"

fun resp_kp :: "run_result \<Rightarrow> jsnum option" where
  "resp_kp (Single res) = Some (result_kp res)"
| "resp_kp (Many rs) = None"

fun resp_actions :: "run_result \<Rightarrow> Step list option" where
  "resp_actions (Single res) = Some (actions res)"
| "resp_actions (Many rs) = None"

fun resp_distance :: "run_result \<Rightarrow> jsnum option" where
  "resp_distance (Single res) = Some (distance res)"
| "resp_distance (Many rs) = None"

fun to_number :: "jsnum option \<Rightarrow> jsnum" where
  "to_number None = NaN"
| "to_number (Some x) = x"

section \<open>Quality levels (\<open>computeFindBest\<close>)\<close>

text \<open>
  The \<open>pruningOptions\<close> of \<open>FindBestArgs\<close>. \<open>maxCombinations\<close> is a count or
  \<open>Infinity\<close>, hence an extended natural number.
\<close>

record PruningOptions =
  maxCombinations :: enat
  pruningThreshold :: rat

text \<open>
  The table \<open>qualitySettings\<close>; a key that is not one of its five levels reads
  \<open>undefined\<close>.
\<close>

definition qualitySettings :: "rat \<Rightarrow> PruningOptions option" where
  "qualitySettings q =
     (if q = 1 then Some \<lparr>maxCombinations = 100, pruningThreshold = 0.90\<rparr>
      else if q = 2 then Some \<lparr>maxCombinations = 200, pruningThreshold = 0.92\<rparr>
      else if q = 3 then Some \<lparr>maxCombinations = 400, pruningThreshold = 0.95\<rparr>
      else if q = 4 then Some \<lparr>maxCombinations = 800, pruningThreshold = 0.98\<rparr>
      else if q = 5 then Some \<lparr>maxCombinations = \<infinity>, pruningThreshold = 1.0\<rparr>
      else None)"

text \<open>
  \<open>this.forceOptimal ? {Infinity, 1.0} : qualitySettings[this.pathfindingQuality] ??
  qualitySettings[5]\<close>
\<close>

definition pruningOptions_of :: "bool \<Rightarrow> rat \<Rightarrow> PruningOptions" where
  "pruningOptions_of forceOptimal_flag quality =
     (if forceOptimal_flag then \<lparr>maxCombinations = \<infinity>, pruningThreshold = 1.0\<rparr>
      else (case qualitySettings quality of
              Some p \<Rightarrow> p
            | None \<Rightarrow> \<lparr>maxCombinations = \<infinity>, pruningThreshold = 1.0\<rparr>))"

section \<open>Slot maps\<close>

text \<open>
  \<open>activeBounties\<close>, \<open>boardBounties\<close> and the per-tick \<open>detectedActive\<close>,
  \<open>detectedBoard\<close> are JavaScript objects keyed by slot index. Such an object is
  modelled as an association list read by \<open>map_of\<close>; \<open>Object.keys\<close> and
  \<open>for ... in\<close> enumerate integer keys in ascending order, \<open>Object.values\<close> gives the
  values in that order.
\<close>

type_synonym slots = "(nat \<times> string) list"

definition keys_of :: "slots \<Rightarrow> nat list" where
  "keys_of d = sort (remdups (map fst d))"

definition values_of :: "slots \<Rightarrow> string list" where
  "values_of d = List.map_filter (map_of d) (keys_of d)"

section \<open>Scheduler state\<close>

text \<open>Interface \<open>InFlightFind\<close>; its promise is the computation recorded in \<open>effects\<close>.\<close>

record InFlightFind =
  signature :: string
  startedAtMs :: int

text \<open>
  What a call leaves behind outside the object's fields: a computation started by
  \<open>launchFindBestIfNeeded\<close> (its arguments, and the pruning options \<open>computeFindBest\<close>
  reads before its first \<open>await\<close>), and the warning for a stale search (age, previous and
  new signature).
\<close>

datatype effect =
    FindBestStarted "string list" bool string string PruningOptions
  | StaleWarning int string string

text \<open>
  The fields of \<open>OCRProcessor\<close> that \<open>launchFindBestIfNeeded\<close> and \<open>computeFindBest\<close>
  read or write, under their names in the source. The fields that the completion
  handler assigns from the result can come to hold \<open>undefined\<close>.
\<close>

record OCRProcessor =
  activeBounties :: slots
  steps :: "Step list option"
  kp :: "jsnum option"
  distanceSeconds :: "jsnum option"
  displaySteps :: "Step list option"
  displayKp :: "jsnum option"
  displayDistanceSeconds :: "jsnum option"
  runCompleted :: bool
  stepIdx :: nat
  prevOptimalBounties :: "string list option"
  prevAllBountiesSignature :: string
  inFlightFind :: "InFlightFind option"
  launchedAtLeastOnce :: bool
  forceOptimal :: bool
  pathfindingQuality :: rat
  pathfinderTimeoutMs :: int
  effects :: "effect list"

text \<open>The field initialisers and the constructor, for the two options modelled.\<close>

definition new_OCRProcessor :: "int \<Rightarrow> rat \<Rightarrow> OCRProcessor" where
  "new_OCRProcessor timeoutMs quality =
     \<lparr>activeBounties = [], steps = Some [], kp = Some (Fin 0), distanceSeconds = Some NaN,
      displaySteps = Some [], displayKp = Some (Fin 0), displayDistanceSeconds = Some NaN,
      runCompleted = False, stepIdx = 0, prevOptimalBounties = Some [],
      prevAllBountiesSignature = [], inFlightFind = None, launchedAtLeastOnce = False,
      forceOptimal = False, pathfindingQuality = quality, pathfinderTimeoutMs = timeoutMs,
      effects = []\<rparr>"

text \<open>What a search can be rejected with.\<close>

datatype error =
    NoCombinations
  | NoValidRoutes
  | ProcessNotFound nat
  | ProcessTimedOut int
  | ProcessError string
  | TypeError

subsection \<open>\<open>launchFindBestIfNeeded\<close>\<close>

text \<open>
  The synchronous part of \<open>launchFindBestIfNeeded\<close>: the two guards, then the start of the
  computation and the new \<open>inFlightFind\<close>. \<open>now\<close> is \<open>Date.now()\<close>; the call is
  synchronous, and its two reads of the clock are taken as one instant.
\<close>

definition startFindBest ::
  "OCRProcessor \<Rightarrow> int \<Rightarrow> string list \<Rightarrow> bool \<Rightarrow> string \<Rightarrow> string \<Rightarrow> OCRProcessor" where
  "startFindBest s now allBounties boardOpen sig reason =
     s\<lparr>launchedAtLeastOnce := True,
       effects := effects s @
         [FindBestStarted allBounties boardOpen sig reason
            (pruningOptions_of (forceOptimal s) (pathfindingQuality s))],
       inFlightFind := Some \<lparr>signature = sig, startedAtMs = now\<rparr>\<rparr>"

definition launchFindBestIfNeeded ::
  "OCRProcessor \<Rightarrow> int \<Rightarrow> string list \<Rightarrow> bool \<Rightarrow> string \<Rightarrow> string \<Rightarrow> OCRProcessor" where
  "launchFindBestIfNeeded s now allBounties boardOpen sig reason =
     (case inFlightFind s of
        None \<Rightarrow> startFindBest s now allBounties boardOpen sig reason
      | Some f \<Rightarrow>
          if signature f = sig then s
          else
            let ageMs = now - startedAtMs f in
            if ageMs > pathfinderTimeoutMs s + 1000
            then startFindBest
                   (s\<lparr>effects := effects s @ [StaleWarning ageMs (signature f) sig],
                      inFlightFind := None\<rparr>)
                   now allBounties boardOpen sig reason
            else s)"

subsection \<open>Completion of a search\<close>

text \<open>
  \<open>currentEfficiency\<close> as the completion handler computes it: 0 unless a solution is
  accepted and its distance is above 0. Reading the length of \<open>prevOptimalBounties\<close>
  throws a \<open>TypeError\<close> when the field is \<open>undefined\<close>.
\<close>

definition currentEfficiency :: "OCRProcessor \<Rightarrow> error + jsnum" where
  "currentEfficiency s =
     (case prevOptimalBounties s of
        None \<Rightarrow> Inl TypeError
      | Some optimal \<Rightarrow>
          Inr (if length optimal > 0 \<and> js_gt (to_number (distanceSeconds s)) (Fin 0)
               then js_div (to_number (kp s)) (to_number (distanceSeconds s))
               else Fin 0))"

text \<open>\<open>newEfficiency = optimalResp.kp / optimalResp.distance\<close>\<close>

definition newEfficiency_of :: "run_result \<Rightarrow> jsnum" where
  "newEfficiency_of optimalResp =
     js_div (to_number (resp_kp optimalResp)) (to_number (resp_distance optimalResp))"

text \<open>
  The loop over \<open>optimalResp.actions\<close> that drops a \<open>buy\<close> of an item already held;
  \<open>held\<close> is the set \<open>currentlyHaveItems\<close>.
\<close>

fun filterSteps :: "string set \<Rightarrow> Step list \<Rightarrow> Step list" where
  "filterSteps held [] = []"
| "filterSteps held (Buy item loc d # rest) =
     (if item \<in> held then filterSteps held rest
      else Buy item loc d # filterSteps (insert item held) rest)"
| "filterSteps held (Sell item loc d # rest) =
     Sell item loc d # filterSteps (held - {item}) rest"
| "filterSteps held (st # rest) = st # filterSteps held rest"

text \<open>
  The branch that accepts \<open>optimalResp\<close>: the object as the branch leaves it, and the
  error when the branch throws. It throws where it reads the length of
  \<open>optimalResp.actions\<close>, which it does when the step cursor is above 0, if the
  actions are \<open>undefined\<close>; the solution and the display values are assigned by then.
\<close>

definition acceptSolution :: "OCRProcessor \<Rightarrow> run_result \<Rightarrow> OCRProcessor \<times> error option" where
  "acceptSolution s optimalResp =
     (let s1 = s\<lparr>prevOptimalBounties := resp_bounties optimalResp,
                  kp := resp_kp optimalResp,
                  distanceSeconds := resp_distance optimalResp\<rparr>;
          s2 = (if \<not> runCompleted s1
                then s1\<lparr>displayKp := resp_kp optimalResp,
                        displayDistanceSeconds := resp_distance optimalResp\<rparr>
                else s1);
          unfiltered =
            (let s3 = s2\<lparr>steps := resp_actions optimalResp\<rparr>
             in if \<not> runCompleted s3 then s3\<lparr>displaySteps := resp_actions optimalResp\<rparr>
                else s3)
      in if stepIdx s2 > 0 then
           (case resp_actions optimalResp of
              None \<Rightarrow> (s2, Some TypeError)
            | Some acts \<Rightarrow>
                if length acts > 0 then
                  let filteredSteps = filterSteps (set (values_of (activeBounties s2))) acts;
                      s3 = s2\<lparr>steps := Some filteredSteps, stepIdx := 0\<rparr>
                  in (if \<not> runCompleted s3 then s3\<lparr>displaySteps := Some filteredSteps\<rparr>
                      else s3, None)
                else (unfiltered, None))
         else (unfiltered, None))"

text \<open>
  What \<open>computeFindBest\<close> does to the object when the pool's promise settles: it clears
  \<open>forceOptimal\<close>, on success when the flag is set and in its \<open>catch\<close> always.
\<close>

definition computeFindBest_settled ::
  "OCRProcessor \<Rightarrow> error + run_result \<Rightarrow> OCRProcessor" where
  "computeFindBest_settled s outcome =
     (case outcome of
        Inr res \<Rightarrow> (if forceOptimal s then s\<lparr>forceOptimal := False\<rparr> else s)
      | Inl e \<Rightarrow> s\<lparr>forceOptimal := False\<rparr>)"

text \<open>
  The rest of the promise created in \<open>launchFindBestIfNeeded\<close>, run when the computation
  for signature \<open>sig\<close> settles with \<open>outcome\<close> (\<open>Inl\<close>: it threw): the \<open>try\<close> block with
  the acceptance decision, the empty \<open>catch\<close>, and the \<open>finally\<close> that clears
  \<open>inFlightFind\<close> when it still carries \<open>sig\<close>. An error thrown inside the \<open>try\<close>
  block ends the block where it is thrown, before \<open>prevAllBountiesSignature\<close> is
  assigned.
\<close>

definition findBest_settled ::
  "OCRProcessor \<Rightarrow> string \<Rightarrow> error + run_result \<Rightarrow> OCRProcessor" where
  "findBest_settled s sig outcome =
     (let s1 = computeFindBest_settled s outcome;
          s2 = (case outcome of
                  Inl e \<Rightarrow> s1
                | Inr optimalResp \<Rightarrow>
                    let newEfficiency = newEfficiency_of optimalResp
                    in (case currentEfficiency s1 of
                          Inl e \<Rightarrow> s1
                        | Inr cur \<Rightarrow>
                            if cur = Fin 0 \<or> js_gt newEfficiency cur
                            then (case acceptSolution s1 optimalResp of
                                    (s', Some e) \<Rightarrow> s'
                                  | (s', None) \<Rightarrow> s'\<lparr>prevAllBountiesSignature := sig\<rparr>)
                            else s1\<lparr>prevAllBountiesSignature := sig\<rparr>))
      in case inFlightFind s2 of
           None \<Rightarrow> s2
         | Some f \<Rightarrow> if signature f = sig then s2\<lparr>inFlightFind := None\<rparr> else s2)"

text \<open>A sequence of completions, each with its signature and its route, in order.\<close>

fun settle_all :: "OCRProcessor \<Rightarrow> (string \<times> FindBestResult) list \<Rightarrow> OCRProcessor" where
  "settle_all s [] = s"
| "settle_all s ((sig, res) # rest) =
     settle_all (findBest_settled s sig (Inr (Single res))) rest"

text \<open>The accepted solution: bounties, KP and distance.\<close>

definition acceptedSolution ::
  "OCRProcessor \<Rightarrow> string list option \<times> jsnum option \<times> jsnum option" where
  "acceptedSolution s = (prevOptimalBounties s, kp s, distanceSeconds s)"

text \<open>
  A result that is a route: at least one bounty, and finite positive KP and distance.
  The candidates come from the combination generator and the route builder, which are
  external to the scheduler; every candidate has one to six bounties, each with a
  positive reward, and a route takes time.
\<close>

fun positive :: "jsnum \<Rightarrow> bool" where
  "positive (Fin a) = (0 < a)"
| "positive _ = False"

definition is_route :: "FindBestResult \<Rightarrow> bool" where
  "is_route res = (bounties res \<noteq> [] \<and> positive (result_kp res) \<and> positive (distance res))"

text \<open>A state whose accepted solution is either cleared or a route.\<close>

definition route_state :: "OCRProcessor \<Rightarrow> bool" where
  "route_state s =
     (prevOptimalBounties s = Some []
      \<or> (prevOptimalBounties s \<noteq> None
          \<and> positive (to_number (kp s)) \<and> positive (to_number (distanceSeconds s))))"

text \<open>A number that is zero, positive or \<open>Infinity\<close>.\<close>

fun not_negative :: "jsnum \<Rightarrow> bool" where
  "not_negative (Fin a) = (0 \<le> a)"
| "not_negative PosInf = True"
| "not_negative _ = False"

section \<open>Indicators and board persistence (\<open>processOCRResultsAsync\<close>)\<close>

subsection \<open>Drop indicators\<close>

text \<open>
  The object \<open>bountyIndices\<close>: for each bounty, the slot indices that hold it, in the
  order the loop over \<open>detectedActive\<close> pushes them. Its keys are bounty keys (catalogue
  names, none of them an integer literal), which \<open>for ... in\<close> enumerates in insertion
  order, so the object is an association list that keeps that order.
\<close>

fun push_index :: "(string \<times> nat list) list \<Rightarrow> string \<Rightarrow> nat \<Rightarrow> (string \<times> nat list) list" where
  "push_index [] bounty idx = [(bounty, [idx])]"
| "push_index ((b, idxs) # rest) bounty idx =
     (if b = bounty then (b, idxs @ [idx]) # rest
      else (b, idxs) # push_index rest bounty idx)"

definition bountyIndices_step ::
  "slots \<Rightarrow> (string \<times> nat list) list \<Rightarrow> nat \<Rightarrow> (string \<times> nat list) list" where
  "bountyIndices_step detectedActive bountyIndices idx =
     (case map_of detectedActive idx of
        None \<Rightarrow> bountyIndices
      | Some bounty \<Rightarrow> push_index bountyIndices bounty idx)"

definition bountyIndices_of :: "slots \<Rightarrow> (string \<times> nat list) list" where
  "bountyIndices_of detectedActive =
     foldl (bountyIndices_step detectedActive) [] (keys_of detectedActive)"

text \<open>
  \<open>expiresAt && expiresAt > Date.now()\<close> for \<open>expiresAt = recentActiveAdds.get(idx)\<close>;
  the map \<open>recentActiveAdds\<close> is only read here.
\<close>

definition in_grace :: "(nat \<Rightarrow> int option) \<Rightarrow> int \<Rightarrow> nat \<Rightarrow> bool" where
  "in_grace recentActiveAdds now idx =
     (case recentActiveAdds idx of
        None \<Rightarrow> False
      | Some expiresAt \<Rightarrow> expiresAt \<noteq> 0 \<and> expiresAt > now)"

text \<open>
  The body of the loop over \<open>bountyIndices\<close>: the indices pushed for one bounty with
  its slot indices \<open>idxs\<close>.
\<close>

definition drops_of_bounty ::
  "string list \<Rightarrow> (nat \<Rightarrow> int option) \<Rightarrow> int \<Rightarrow> string \<times> nat list \<Rightarrow> nat list" where
  "drops_of_bounty optimalBounties recentActiveAdds now =
     (\<lambda>(bounty, idxs).
        let indices = sort idxs;
            allowed = length (filter (\<lambda>b. b = bounty) optimalBounties)
        in if length indices > allowed
           then filter (\<lambda>idx. \<not> in_grace recentActiveAdds now idx)
                  (take (length indices - allowed) indices)
           else [])"

text \<open>
  The value assigned to \<open>activeDrops\<close> on a tick that reaches the indicators, that is
  one with \<open>hasOptimal\<close>; \<open>optimalBounties\<close> is \<open>prevOptimalBounties\<close> there, and
  \<open>detectedActive\<close> holds the active slots read on this tick.
\<close>

definition activeDrops_of ::
  "bool \<Rightarrow> bool \<Rightarrow> slots \<Rightarrow> string list \<Rightarrow> (nat \<Rightarrow> int option) \<Rightarrow> int \<Rightarrow> nat list" where
  "activeDrops_of recomputeInFlight boardOpen detectedActive optimalBounties recentActiveAdds now =
     (if recomputeInFlight \<or> \<not> boardOpen then []
      else concat (map (drops_of_bounty optimalBounties recentActiveAdds now)
                     (bountyIndices_of detectedActive)))"

text \<open>
  For comparison, in the words of the specification: the slots that hold a bounty, in
  ascending order, and the lowest-index ones among them in excess of what the accepted
  solution allows.
\<close>

definition slots_holding :: "slots \<Rightarrow> string \<Rightarrow> nat list" where
  "slots_holding d bounty = filter (\<lambda>idx. map_of d idx = Some bounty) (keys_of d)"

definition lowest_excess :: "slots \<Rightarrow> string list \<Rightarrow> string \<Rightarrow> nat list" where
  "lowest_excess d optimalBounties bounty =
     take (length (slots_holding d bounty) - length (filter (\<lambda>b. b = bounty) optimalBounties))
       (slots_holding d bounty)"

subsection \<open>Pickup indicators\<close>

text \<open>
  The loop over \<open>sortedBoardIndices\<close>; \<open>pickupCount\<close> is the counter object, read with
  \<open>|| 0\<close>, and the list returned is \<open>boardPickups\<close> in the order of its pushes.
\<close>

fun boardPickups_loop ::
  "slots \<Rightarrow> string list \<Rightarrow> string list \<Rightarrow> (string \<Rightarrow> nat) \<Rightarrow> nat list \<Rightarrow> nat list" where
  "boardPickups_loop updatedBoard activeValues optimalBounties pickupCount [] = []"
| "boardPickups_loop updatedBoard activeValues optimalBounties pickupCount (idx # rest) =
     (case map_of updatedBoard idx of
        None \<Rightarrow> boardPickups_loop updatedBoard activeValues optimalBounties pickupCount rest
      | Some bounty \<Rightarrow>
          if bounty \<in> set optimalBounties then
            let allowed = length (filter (\<lambda>b. b = bounty) optimalBounties);
                activeCount = length (filter (\<lambda>b. b = bounty) activeValues);
                current = pickupCount bounty
            in if activeCount + current < allowed
               then idx # boardPickups_loop updatedBoard activeValues optimalBounties
                            (pickupCount(bounty := current + 1)) rest
               else boardPickups_loop updatedBoard activeValues optimalBounties pickupCount rest
          else boardPickups_loop updatedBoard activeValues optimalBounties pickupCount rest)"

definition boardPickups_of :: "bool \<Rightarrow> slots \<Rightarrow> slots \<Rightarrow> string list \<Rightarrow> nat list" where
  "boardPickups_of boardOpen updatedBoard updatedActive optimalBounties =
     (if boardOpen
      then boardPickups_loop updatedBoard (values_of updatedActive) optimalBounties (\<lambda>b. 0)
             (keys_of updatedBoard)
      else [])"

text \<open>
  For comparison, in the words of the specification: a board slot is wanted when its
  bounty is in the accepted solution and the slots already active, together with the
  board slots of lower index that hold the same bounty, do not yet reach the count the
  accepted solution allows.
\<close>

definition pickup_wanted :: "slots \<Rightarrow> slots \<Rightarrow> string list \<Rightarrow> nat \<Rightarrow> bool" where
  "pickup_wanted updatedBoard updatedActive optimalBounties idx =
     (case map_of updatedBoard idx of
        None \<Rightarrow> False
      | Some bounty \<Rightarrow>
          bounty \<in> set optimalBounties
          \<and> length (filter (\<lambda>b. b = bounty) (values_of updatedActive))
              + length (filter (\<lambda>j. j < idx) (slots_holding updatedBoard bounty))
              < length (filter (\<lambda>b. b = bounty) optimalBounties))"

subsection \<open>Board persistence\<close>

text \<open>
  \<open>matchTypes\<close> is keyed by region key in the source; here it is read by board slot index
  \<open>idx\<close>, standing for the key \<open>boardRegion\<close> followed by \<open>idx\<close>.
\<close>

datatype matchType = Exact | Fuzzy

text \<open>
  The body of the loop over the detected board slots; \<open>oldBounty\<close> is read from the
  persisted board, and \<open>!oldBounty\<close> holds for a missing slot and for an empty string.
\<close>

definition updatedBoard_step ::
  "slots \<Rightarrow> slots \<Rightarrow> (nat \<Rightarrow> matchType option) \<Rightarrow> slots \<Rightarrow> nat \<Rightarrow> slots" where
  "updatedBoard_step boardBounties detectedBoard matchTypes updatedBoard idx =
     (case map_of detectedBoard idx of
        None \<Rightarrow> updatedBoard
      | Some newBounty \<Rightarrow>
          (case map_of boardBounties idx of
             None \<Rightarrow> (idx, newBounty) # updatedBoard
           | Some oldBounty \<Rightarrow>
               if oldBounty = [] then (idx, newBounty) # updatedBoard
               else if matchTypes idx = Some Exact \<or> newBounty = oldBounty
               then (idx, newBounty) # updatedBoard
               else updatedBoard))"

text \<open>
  The local \<open>updatedBoard\<close>: empty when the board is closed; else the persisted board,
  with each detected slot overwritten when it was empty, when the detection is exact or
  when it repeats the stored bounty, and with the undetected slots deleted when fewer
  slots were detected than are stored.
\<close>

definition updatedBoard_of ::
  "bool \<Rightarrow> slots \<Rightarrow> slots \<Rightarrow> (nat \<Rightarrow> matchType option) \<Rightarrow> slots" where
  "updatedBoard_of boardOpen boardBounties detectedBoard matchTypes =
     (if \<not> boardOpen then []
      else
        let merged = foldl (updatedBoard_step boardBounties detectedBoard matchTypes)
                       boardBounties (keys_of detectedBoard);
            prevBoardCount = length (keys_of boardBounties);
            currBoardCount = length (keys_of detectedBoard)
        in if currBoardCount < prevBoardCount
           then filter (\<lambda>(idx, b). idx \<in> set (keys_of detectedBoard)) merged
           else merged)"

text \<open>
  The value of \<open>this.boardBounties\<close> when the tick returns. \<open>optimalBounties\<close> is
  \<open>prevOptimalBounties\<close> where the tick tests \<open>hasOptimal\<close>: without an accepted solution
  the tick stores the detections as they are and returns early.
\<close>

definition boardBounties_after_tick ::
  "string list \<Rightarrow> bool \<Rightarrow> slots \<Rightarrow> slots \<Rightarrow> (nat \<Rightarrow> matchType option) \<Rightarrow> slots" where
  "boardBounties_after_tick optimalBounties boardOpen boardBounties detectedBoard matchTypes =
     (if length optimalBounties > 0
      then updatedBoard_of boardOpen boardBounties detectedBoard matchTypes
      else detectedBoard)"

section \<open>Worker pool (\<open>PathfinderUtilityPool\<close>)\<close>

text \<open>Interface \<open>ComboTask\<close>.\<close>

record ComboTask =
  task_combo :: "string list"
  task_kp :: jsnum
  estimatedEfficiency :: jsnum

text \<open>
  Interface \<open>UtilityResponse\<close>, without its correlation id and timing: the handler only
  takes the message whose id is the request's.
\<close>

record UtilityResponse =
  ok :: bool
  results :: "ComboResult list option"
  error_text :: "string option"

text \<open>
  What happens to one \<open>evaluateChunk\<close> request: the timer fires first, or the process
  answers. A utility process is modelled by what it does with the tasks and the pruning
  threshold it is sent.
\<close>

datatype worker_reply = NoReplyBeforeTimeout | Reply UtilityResponse

type_synonym utility_process = "ComboTask list \<Rightarrow> rat \<Rightarrow> worker_reply"

text \<open>The pool after \<open>initPool\<close>.\<close>

record PathfinderUtilityPool =
  maxProcesses :: nat
  processes :: "utility_process list"

definition as_FindBestResult :: "ComboResult \<Rightarrow> FindBestResult" where
  "as_FindBestResult best =
     \<lparr>bounties = combo best, result_kp = combo_kp best,
      actions = combo_actions best, distance = combo_distance best\<rparr>"

definition runOnProcess ::
  "PathfinderUtilityPool \<Rightarrow> ComboTask list \<Rightarrow> nat \<Rightarrow> rat \<Rightarrow> int \<Rightarrow> bool \<Rightarrow> error + run_result" where
  "runOnProcess pool tasks processIdx threshold timeoutMs returnSingle =
     (if \<not> processIdx < length (processes pool) then Inl (ProcessNotFound processIdx)
      else
        case (processes pool ! processIdx) tasks threshold of
          NoReplyBeforeTimeout \<Rightarrow>
            if returnSingle then Inl (ProcessTimedOut timeoutMs) else Inr (Many [])
        | Reply msg \<Rightarrow>
            if ok msg then
              (case results msg of
                 None \<Rightarrow> Inr (Many [])
               | Some [] \<Rightarrow> Inr (Many [])
               | Some (best # others) \<Rightarrow>
                   if returnSingle then Inr (Single (as_FindBestResult best))
                   else Inr (Many (best # others)))
            else if returnSingle then
              Inl (ProcessError (case error_text msg of
                                   None \<Rightarrow> ''Process error''
                                 | Some [] \<Rightarrow> ''Process error''
                                 | Some (c # cs) \<Rightarrow> c # cs))
            else Inr (Many []))"

text \<open>
  \<open>Array.prototype.sort\<close> with a comparator: the sort is stable, so for a comparator
  that orders its arguments consistently it is this insertion sort, in which an element
  passes those that compare below zero against it. A comparison that is NaN counts as
  zero; a comparator that yields NaN for some pairs and not for others (an efficiency
  that is NaN, or two that are infinite) is not consistent, the language leaves the
  order to the engine then, and the engine's order can differ from the one here. The
  properties below use of the sort only that it keeps the length of the list, and that
  it keeps a list of equal elements as it is.
\<close>

fun js_insert :: "('a \<Rightarrow> 'a \<Rightarrow> jsnum) \<Rightarrow> 'a \<Rightarrow> 'a list \<Rightarrow> 'a list" where
  "js_insert cmp x [] = [x]"
| "js_insert cmp x (y # ys) =
     (if js_gt (Fin 0) (cmp y x) then y # js_insert cmp x ys else x # y # ys)"

definition js_sort :: "('a \<Rightarrow> 'a \<Rightarrow> jsnum) \<Rightarrow> 'a list \<Rightarrow> 'a list" where
  "js_sort cmp xs = foldr (js_insert cmp) xs []"

text \<open>
  \<open>tasksToProcess\<close>: the candidates sorted by estimated efficiency, best first, and cut
  to \<open>maxCombinations\<close>. \<open>comboTasks\<close> is the list built from the output of the
  combination generator, a module of its own that the pool only calls. The caller
  always passes both pruning options, so the pool's defaults for them play no part.
\<close>

definition tasksToProcess :: "PruningOptions \<Rightarrow> ComboTask list \<Rightarrow> ComboTask list" where
  "tasksToProcess opts comboTasks =
     (let sorted_tasks =
            js_sort (\<lambda>a b. js_sub (estimatedEfficiency b) (estimatedEfficiency a)) comboTasks
      in case maxCombinations opts of
           \<infinity> \<Rightarrow> sorted_tasks
         | enat n \<Rightarrow> take n sorted_tasks)"

text \<open>\<open>Math.ceil(n / d)\<close> for a count \<open>n\<close> and a positive integer \<open>d\<close>.\<close>

definition ceil_div :: "nat \<Rightarrow> nat \<Rightarrow> nat" where
  "ceil_div n d = (n + d - 1) div d"

text \<open>The round-robin loop \<open>chunks[i % numProcesses].push(tasksToProcess[i])\<close>.\<close>

definition distribute :: "nat \<Rightarrow> 'a list \<Rightarrow> 'a list list" where
  "distribute numProcesses tasks =
     foldl (\<lambda>chunks i. chunks[i mod numProcesses := chunks ! (i mod numProcesses) @ [tasks ! i]])
       (replicate numProcesses []) [0..<length tasks]"

text \<open>\<open>Promise.all\<close>: the first rejection, or all the values.\<close>

fun promise_all :: "(error + 'a) list \<Rightarrow> error + 'a list" where
  "promise_all [] = Inr []"
| "promise_all (Inl e # ps) = Inl e"
| "promise_all (Inr v # ps) = (case promise_all ps of Inl e \<Rightarrow> Inl e | Inr vs \<Rightarrow> Inr (v # vs))"

text \<open>
  One element of \<open>chunkResults\<close> under \<open>flat()\<close>. With \<open>returnSingle\<close> false every
  element is a list.
\<close>

fun flat_results :: "run_result \<Rightarrow> ComboResult list" where
  "flat_results (Many rs) = rs"
| "flat_results (Single r) = []"

definition by_efficiency :: "ComboResult \<Rightarrow> ComboResult \<Rightarrow> jsnum" where
  "by_efficiency a b =
     js_sub (js_div (combo_kp b) (combo_distance b)) (js_div (combo_kp a) (combo_distance a))"

text \<open>
  \<open>findBest\<close> from the sort of \<open>comboTasks\<close> on. The single-process path hands on
  whatever \<open>runOnProcess\<close> resolves with. With no process to distribute to, the push onto
  a missing chunk throws a \<open>TypeError\<close>.
\<close>

definition findBest ::
  "PathfinderUtilityPool \<Rightarrow> PruningOptions \<Rightarrow> ComboTask list \<Rightarrow> int \<Rightarrow> error + run_result" where
  "findBest pool opts comboTasks timeoutMs =
     (let tasks = tasksToProcess opts comboTasks in
      if length tasks = 0 then Inl NoCombinations
      else
        let numProcesses = min (maxProcesses pool) (ceil_div (length tasks) 10) in
        if length tasks \<le> 20
        then runOnProcess pool tasks 0 (pruningThreshold opts) timeoutMs True
        else if numProcesses = 0 then Inl TypeError
        else
          let chunks = distribute numProcesses tasks;
              processPromises =
                map (\<lambda>(chunk, idx).
                       runOnProcess pool chunk (idx mod length (processes pool))
                         (pruningThreshold opts) timeoutMs False)
                  (zip chunks [0..<length chunks])
          in case promise_all processPromises of
               Inl e \<Rightarrow> Inl e
             | Inr chunkResults \<Rightarrow>
                 (case js_sort by_efficiency (concat (map flat_results chunkResults)) of
                    [] \<Rightarrow> Inl NoValidRoutes
                  | best # others \<Rightarrow> Inr (Single (as_FindBestResult best))))"

text \<open>
  For comparison, in the words of the specification: the shard of worker \<open>j\<close> among
  \<open>n\<close> under round-robin, and what a shard contributes to the merge.
\<close>

definition round_robin :: "nat \<Rightarrow> 'a list \<Rightarrow> nat \<Rightarrow> 'a list" where
  "round_robin n tasks j = map (\<lambda>i. tasks ! i) (filter (\<lambda>i. i mod n = j) [0..<length tasks])"

fun shard_contribution :: "worker_reply \<Rightarrow> ComboResult list" where
  "shard_contribution NoReplyBeforeTimeout = []"
| "shard_contribution (Reply msg) =
     (if ok msg then (case results msg of None \<Rightarrow> [] | Some rs \<Rightarrow> rs) else [])"

section \<open>Example values\<close>

text \<open>Two routes of equal efficiency, and a scheduler that has accepted the first.\<close>

definition route_A :: FindBestResult where
  "route_A = \<lparr>bounties = [''A''], result_kp = Fin 10, actions = [], distance = Fin 5\<rparr>"

definition route_B :: FindBestResult where
  "route_B = \<lparr>bounties = [''B''], result_kp = Fin 12, actions = [], distance = Fin 6\<rparr>"

definition holding_A :: OCRProcessor where
  "holding_A =
     (new_OCRProcessor 20000 5)\<lparr>prevOptimalBounties := Some [''A''], kp := Some (Fin 10),
                                distanceSeconds := Some (Fin 5)\<rparr>"

text \<open>
  A result whose distance is 0, a route of efficiency 1/4, and a result and an accepted
  solution whose KP is 0.
\<close>

definition result_zero_distance :: FindBestResult where
  "result_zero_distance =
     \<lparr>bounties = [''C''], result_kp = Fin 30, actions = [], distance = Fin 0\<rparr>"

definition route_D :: FindBestResult where
  "route_D = \<lparr>bounties = [''D''], result_kp = Fin 1, actions = [], distance = Fin 4\<rparr>"

definition result_zero_kp :: FindBestResult where
  "result_zero_kp = \<lparr>bounties = [''E''], result_kp = Fin 0, actions = [], distance = Fin 7\<rparr>"

text \<open>
  An accepted solution and a route whose exact quotients differ, 1.00000001 being no
  double, and round to the same double.
\<close>

definition holding_rounded :: OCRProcessor where
  "holding_rounded =
     (new_OCRProcessor 20000 5)\<lparr>prevOptimalBounties := Some [''A''],
                                kp := Some (Fin (1125899918101623 / 1125899906842624)),
                                distanceSeconds := Some (Fin 1)\<rparr>"

definition route_rounded :: FindBestResult where
  "route_rounded =
     \<lparr>bounties = [''B''], result_kp = Fin 100000001, actions = [],
      distance = Fin 100000000\<rparr>"

definition holding_zero_kp :: OCRProcessor where
  "holding_zero_kp =
     (new_OCRProcessor 20000 5)\<lparr>prevOptimalBounties := Some [''Z''], kp := Some (Fin 0),
                                distanceSeconds := Some (Fin 5)\<rparr>"

text \<open>A scheduler whose search for signature \<open>A\<close> started at time 0.\<close>

definition searching_A :: OCRProcessor where
  "searching_A =
     (new_OCRProcessor 20000 5)\<lparr>inFlightFind := Some \<lparr>signature = ''A'', startedAtMs = 0\<rparr>\<rparr>"

text \<open>
  Active slots holding \<open>A\<close> three times and \<open>B\<close> once, a solution that takes \<open>A\<close>
  twice and \<open>B\<close> once, and no slot in its grace window.
\<close>

definition active_AAAB :: slots where
  "active_AAAB = [(1, ''A''), (2, ''A''), (3, ''A''), (4, ''B'')]"

definition optimal_AAB :: "string list" where
  "optimal_AAB = [''A'', ''A'', ''B'']"

definition no_grace :: "nat \<Rightarrow> int option" where
  "no_grace = (\<lambda>idx. None)"

text \<open>One active slot holding \<open>A\<close>, and a board offering \<open>A\<close> twice and \<open>C\<close> once.\<close>

definition active_A :: slots where
  "active_A = [(1, ''A'')]"

definition board_AAC :: slots where
  "board_AAC = [(1, ''A''), (2, ''A''), (3, ''C'')]"

text \<open>
  A board whose slot 1 holds \<open>X\<close>, a tick that reads \<open>Y\<close> there, and match types that
  are all fuzzy.
\<close>

definition board_X :: slots where
  "board_X = [(1, ''X'')]"

definition detected_Y :: slots where
  "detected_Y = [(1, ''Y'')]"

definition all_fuzzy :: "nat \<Rightarrow> matchType option" where
  "all_fuzzy = (\<lambda>idx. Some Fuzzy)"

text \<open>
  A candidate, a route for it, and a pool of two processes: the first never answers
  before the deadline, the second answers every request with that one route.
\<close>

definition task_A :: ComboTask where
  "task_A = \<lparr>task_combo = [''A''], task_kp = Fin 10, estimatedEfficiency = Fin 1\<rparr>"

definition result_A :: ComboResult where
  "result_A = \<lparr>combo = [''A''], combo_kp = Fin 10, combo_actions = [], combo_distance = Fin 5\<rparr>"

definition silent_process :: utility_process where
  "silent_process = (\<lambda>tasks threshold. NoReplyBeforeTimeout)"

definition answering_process :: utility_process where
  "answering_process =
     (\<lambda>tasks threshold. Reply \<lparr>ok = True, results = Some [result_A], error_text = None\<rparr>)"

definition pool_of_two :: PathfinderUtilityPool where
  "pool_of_two = \<lparr>maxProcesses = 2, processes = [silent_process, answering_process]\<rparr>"

definition unbounded :: PruningOptions where
  "unbounded = \<lparr>maxCombinations = \<infinity>, pruningThreshold = 1\<rparr>"

section \<open>Properties of the quality levels\<close>

lemma length_js_insert: "length (js_insert cmp x ys) = Suc (length ys)"
  by (induction ys) simp_all

lemma length_js_sort: "length (js_sort cmp xs) = length xs"
  by (induction xs) (simp_all add: js_sort_def length_js_insert)

lemma length_tasksToProcess:
  "enat (length (tasksToProcess opts comboTasks))
     = min (enat (length comboTasks)) (maxCombinations opts)"
proof (cases "maxCombinations opts")
  case (enat n)
  then show ?thesis
    by (simp add: tasksToProcess_def length_js_sort min_def)
next
  case infinity
  then show ?thesis
    by (simp add: tasksToProcess_def length_js_sort)
qed

text \<open>
  C7. The five quality levels give \<open>maxCombinations\<close> 100, 200, 400, 800 and unbounded,
  and \<open>pruningThreshold\<close> 0.90, 0.92, 0.95, 0.98 and 1.0; both grow strictly with the
  level; a forced optimal search takes the unbounded pair with threshold 1.0 whatever
  the configured quality is; and the pool keeps the first \<open>maxCombinations\<close> of the
  ranked candidates, all of them when it is unbounded.
\<close>

theorem quality_levels:
  "map (\<lambda>q. maxCombinations (pruningOptions_of False q)) [1, 2, 3, 4, 5]
     = [100, 200, 400, 800, \<infinity>]
   \<and> map (\<lambda>q. pruningThreshold (pruningOptions_of False q)) [1, 2, 3, 4, 5]
     = [0.90, 0.92, 0.95, 0.98, 1.0]
   \<and> (\<forall>q1 \<in> {1, 2, 3, 4, 5}. \<forall>q2 \<in> {1, 2, 3, 4, 5}. q1 < q2 \<longrightarrow>
        maxCombinations (pruningOptions_of False q1) < maxCombinations (pruningOptions_of False q2)
        \<and> pruningThreshold (pruningOptions_of False q1)
            < pruningThreshold (pruningOptions_of False q2))
   \<and> (\<forall>q. pruningOptions_of True q = \<lparr>maxCombinations = \<infinity>, pruningThreshold = 1.0\<rparr>)
   \<and> (\<forall>flag q. enat (length (tasksToProcess (pruningOptions_of flag q) comboTasks))
          = min (enat (length comboTasks)) (maxCombinations (pruningOptions_of flag q)))"
proof -
  have "map (\<lambda>q. maxCombinations (pruningOptions_of False q)) [1, 2, 3, 4, 5]
     = [100, 200, 400, 800, \<infinity>]
   \<and> map (\<lambda>q. pruningThreshold (pruningOptions_of False q)) [1, 2, 3, 4, 5]
     = [0.90, 0.92, 0.95, 0.98, 1.0]
   \<and> (\<forall>q1 \<in> {1, 2, 3, 4, 5}. \<forall>q2 \<in> {1, 2, 3, 4, 5}. q1 < q2 \<longrightarrow>
        maxCombinations (pruningOptions_of False q1) < maxCombinations (pruningOptions_of False q2)
        \<and> pruningThreshold (pruningOptions_of False q1)
            < pruningThreshold (pruningOptions_of False q2))
   \<and> (\<forall>q. pruningOptions_of True q = \<lparr>maxCombinations = \<infinity>, pruningThreshold = 1.0\<rparr>)"
    by (simp add: pruningOptions_of_def qualitySettings_def numeral_eq_enat)
  moreover have "\<forall>flag q. enat (length (tasksToProcess (pruningOptions_of flag q) comboTasks))
          = min (enat (length comboTasks)) (maxCombinations (pruningOptions_of flag q))"
    by (simp add: length_tasksToProcess)
  ultimately show ?thesis by blast
qed

theorem quality_levels_witness:
  "maxCombinations (pruningOptions_of False 2) < maxCombinations (pruningOptions_of False 5)
   \<and> pruningThreshold (pruningOptions_of False 2) < pruningThreshold (pruningOptions_of False 5)
   \<and> maxCombinations (pruningOptions_of True 2) = \<infinity>
   \<and> length (tasksToProcess (pruningOptions_of False 1) (replicate 150 task_A)) = 100"
proof -
  have m: "(2::rat) \<in> {1, 2, 3, 4, 5}" "(5::rat) \<in> {1, 2, 3, 4, 5}" "(2::rat) < 5"
    by simp_all
  note q = quality_levels[of "replicate 150 task_A"]
  from q m have 1:
    "maxCombinations (pruningOptions_of False 2) < maxCombinations (pruningOptions_of False 5)
     \<and> pruningThreshold (pruningOptions_of False 2) < pruningThreshold (pruningOptions_of False 5)"
    by blast
  from q have 2: "maxCombinations (pruningOptions_of True 2) = \<infinity>"
    by (metis PruningOptions.select_convs(1))
  from q have "enat (length (tasksToProcess (pruningOptions_of False 1) (replicate 150 task_A)))
          = min (enat (length (replicate 150 task_A))) (maxCombinations (pruningOptions_of False 1))"
    by blast
  then have 3: "length (tasksToProcess (pruningOptions_of False 1) (replicate 150 task_A)) = 100"
    by (simp add: pruningOptions_of_def qualitySettings_def numeral_eq_enat)
  from 1 2 3 show ?thesis by simp
qed

section \<open>Acceptance of search results\<close>

lemma acceptSolution_solution:
  "acceptedSolution (fst (acceptSolution s optimalResp))
     = (resp_bounties optimalResp, resp_kp optimalResp, resp_distance optimalResp)"
  by (simp add: acceptSolution_def acceptedSolution_def Let_def split: option.splits)

lemma computeFindBest_settled_solution:
  "acceptedSolution (computeFindBest_settled s outcome) = acceptedSolution s"
  by (simp add: computeFindBest_settled_def acceptedSolution_def split: sum.splits)

lemma currentEfficiency_cong:
  "acceptedSolution s = acceptedSolution t \<Longrightarrow> currentEfficiency s = currentEfficiency t"
  by (auto simp: currentEfficiency_def acceptedSolution_def split: option.splits)

lemma route_state_cong:
  "acceptedSolution s = acceptedSolution t \<Longrightarrow> route_state s = route_state t"
  by (simp add: route_state_def acceptedSolution_def)

lemma findBest_settled_solution:
  "acceptedSolution (findBest_settled s sig (Inr optimalResp)) =
     (if (case currentEfficiency s of
            Inl e \<Rightarrow> False
          | Inr cur \<Rightarrow> cur = Fin 0 \<or> js_gt (newEfficiency_of optimalResp) cur)
      then (resp_bounties optimalResp, resp_kp optimalResp, resp_distance optimalResp)
      else acceptedSolution s)"
proof -
  let ?s1 = "computeFindBest_settled s (Inr optimalResp)"
  have e: "currentEfficiency ?s1 = currentEfficiency s"
    by (rule currentEfficiency_cong) (rule computeFindBest_settled_solution)
  have a: "acceptedSolution (t\<lparr>prevAllBountiesSignature := sig\<rparr>) = acceptedSolution t" for t
    by (simp add: acceptedSolution_def)
  have b: "acceptedSolution (case inFlightFind t of None \<Rightarrow> t
             | Some f \<Rightarrow> if signature f = sig then t\<lparr>inFlightFind := None\<rparr> else t)
           = acceptedSolution t" for t
    by (simp add: acceptedSolution_def split: option.splits)
  have c: "acceptedSolution (case acceptSolution ?s1 optimalResp of
                               (s', Some e) \<Rightarrow> s'
                             | (s', None) \<Rightarrow> s'\<lparr>prevAllBountiesSignature := sig\<rparr>)
           = (resp_bounties optimalResp, resp_kp optimalResp, resp_distance optimalResp)"
    using acceptSolution_solution[of ?s1 optimalResp]
    by (cases "acceptSolution ?s1 optimalResp") (simp add: a split: option.splits)
  show ?thesis
  proof (cases "currentEfficiency s")
    case (Inl err)
    then show ?thesis
      unfolding findBest_settled_def Let_def sum.case b e
      by (simp add: computeFindBest_settled_solution)
  next
    case (Inr cur)
    then show ?thesis
      unfolding findBest_settled_def Let_def sum.case b e
      by (simp add: c a computeFindBest_settled_solution)
  qed
qed

lemma positive_Fin: "positive x \<Longrightarrow> \<exists>a. x = Fin a \<and> 0 < a"
  by (cases x) simp_all

lemma pow2_positive: "0 < pow2 e"
  by (simp add: pow2_def)

lemma round_half_even_not_negative: "0 \<le> m \<Longrightarrow> 0 \<le> round_half_even m"
  by (simp add: round_half_even_def Let_def)

lemma round_double_not_negative: "0 < q \<Longrightarrow> not_negative (round_double q)"
proof -
  assume q: "0 < q"
  define quantum where "quantum = pow2 (max (ilog2 \<bar>q\<bar>) (- 1022) - 52)"
  have "0 < quantum" by (simp add: quantum_def pow2_positive)
  then have "0 \<le> \<bar>q\<bar> / quantum" by simp
  then have "0 \<le> round_half_even (\<bar>q\<bar> / quantum)"
    by (rule round_half_even_not_negative)
  with \<open>0 < quantum\<close> have "0 \<le> of_int (round_half_even (\<bar>q\<bar> / quantum)) * quantum"
    by simp
  with q show ?thesis
    by (simp add: round_double_def Let_def quantum_def)
qed

lemma quotient_not_negative:
  "positive a \<Longrightarrow> positive b \<Longrightarrow> not_negative (js_div a b)"
proof -
  assume "positive a" "positive b"
  then obtain x y where "a = Fin x" "0 < x" "b = Fin y" "0 < y"
    by (metis positive_Fin)
  then show ?thesis
    by (simp add: round_double_not_negative)
qed

lemma route_state_efficiency:
  assumes "route_state s"
  shows "\<exists>c. currentEfficiency s = Inr c \<and> not_negative c"
proof (cases "prevOptimalBounties s = Some []")
  case True
  then show ?thesis by (simp add: currentEfficiency_def)
next
  case False
  with assms obtain optimal where o: "prevOptimalBounties s = Some optimal"
    and p: "positive (to_number (kp s))" "positive (to_number (distanceSeconds s))"
    unfolding route_state_def by auto
  from p have "not_negative (js_div (to_number (kp s)) (to_number (distanceSeconds s)))"
    by (rule quotient_not_negative)
  with o show ?thesis by (simp add: currentEfficiency_def)
qed

lemma route_efficiency:
  assumes "is_route res"
  shows "not_negative (newEfficiency_of (Single res))"
  using assms by (simp add: is_route_def newEfficiency_of_def quotient_not_negative)

lemma js_ge_not_negative:
  "not_negative a \<Longrightarrow> not_negative b \<Longrightarrow> js_ge a b \<or> js_gt b a"
  by (cases a; cases b) (simp_all add: js_ge_def)

lemma js_ge_refl: "not_negative a \<Longrightarrow> js_ge a a"
  by (cases a) (simp_all add: js_ge_def)

lemma js_ge_zero: "not_negative a \<Longrightarrow> js_ge a (Fin 0)"
  by (cases a) (simp_all add: js_ge_def)

lemma js_gt_ge: "js_gt a b \<Longrightarrow> js_ge a b"
  by (cases a; cases b) (simp_all add: js_ge_def)

lemma js_ge_trans:
  "js_ge a b \<Longrightarrow> js_ge b c \<Longrightarrow> js_ge a c"
  by (cases a; cases b; cases c) (auto simp: js_ge_def)

lemma settled_step:
  assumes "route_state s" "is_route res"
  shows "route_state (findBest_settled s sig (Inr (Single res)))
         \<and> (\<exists>a b. currentEfficiency (findBest_settled s sig (Inr (Single res))) = Inr a
                \<and> currentEfficiency s = Inr b \<and> not_negative a \<and> js_ge a b)"
proof -
  let ?s' = "findBest_settled s sig (Inr (Single res))"
  let ?new = "newEfficiency_of (Single res)"
  obtain cur where cur: "currentEfficiency s = Inr cur" "not_negative cur"
    using route_state_efficiency[OF assms(1)] by blast
  have new: "not_negative ?new"
    using assms(2) by (rule route_efficiency)
  show ?thesis
  proof (cases "cur = Fin 0 \<or> js_gt ?new cur")
    case True
    then have sol: "acceptedSolution ?s'
                      = (Some (bounties res), Some (result_kp res), Some (distance res))"
      by (simp add: findBest_settled_solution cur)
    then have f: "prevOptimalBounties ?s' = Some (bounties res)"
      "kp ?s' = Some (result_kp res)" "distanceSeconds ?s' = Some (distance res)"
      by (simp_all add: acceptedSolution_def)
    have r: "route_state ?s'"
      using assms(2) f by (simp add: route_state_def is_route_def)
    from assms(2) obtain d where "distance res = Fin d" "0 < d"
      unfolding is_route_def by (metis positive_Fin)
    with assms(2) f have e: "currentEfficiency ?s' = Inr ?new"
      by (simp add: currentEfficiency_def is_route_def newEfficiency_of_def)
    from True have "js_ge ?new cur"
    proof
      assume "cur = Fin 0"
      with new show ?thesis by (simp add: js_ge_zero)
    next
      assume "js_gt ?new cur"
      then show ?thesis by (rule js_gt_ge)
    qed
    with r e cur new show ?thesis by simp
  next
    case False
    then have "acceptedSolution ?s' = acceptedSolution s"
      by (simp add: findBest_settled_solution cur)
    then have "currentEfficiency ?s' = currentEfficiency s" "route_state ?s' = route_state s"
      by (rule currentEfficiency_cong, rule route_state_cong)
    with assms(1) cur show ?thesis by (simp add: js_ge_refl)
  qed
qed

lemma settle_all_monotone:
  "route_state s \<Longrightarrow> list_all is_route (map snd rs) \<Longrightarrow>
     route_state (settle_all s rs)
     \<and> (\<exists>a b. currentEfficiency (settle_all s rs) = Inr a \<and> currentEfficiency s = Inr b
            \<and> js_ge a b)"
proof (induction rs arbitrary: s)
  case Nil
  then show ?case using route_state_efficiency[of s] by (auto simp: js_ge_refl)
next
  case (Cons p rs)
  obtain sig res where p: "p = (sig, res)" by (cases p)
  from Cons.prems p have r: "is_route res" and rs: "list_all is_route (map snd rs)" by simp_all
  let ?s' = "findBest_settled s sig (Inr (Single res))"
  from settled_step[OF Cons.prems(1) r, of sig]
  obtain a b where 1: "route_state ?s'"
    and 2: "currentEfficiency ?s' = Inr a" "currentEfficiency s = Inr b" "js_ge a b"
    by blast
  from Cons.IH[OF 1 rs] obtain c a' where 3: "route_state (settle_all ?s' rs)"
    and 4: "currentEfficiency (settle_all ?s' rs) = Inr c" "currentEfficiency ?s' = Inr a'"
      "js_ge c a'"
    by blast
  from 2 4 have "js_ge c b" by (auto intro: js_ge_trans)
  with 2 3 4 p show ?case by simp
qed

lemma settle_all_append:
  "settle_all s (rs1 @ rs2) = settle_all (settle_all s rs1) rs2"
  by (induction rs1 arbitrary: s) auto

text \<open>
  The accepted efficiency can decrease, and a result of equal efficiency can replace
  the accepted solution, when a result is not a route. A result with distance 0 has
  efficiency \<open>Infinity\<close> and replaces a solution of efficiency 2; the handler then reads
  the accepted efficiency as 0, its distance not being above 0, and next accepts a route
  of efficiency 1/4. And a result of efficiency 0 replaces an accepted solution of
  efficiency 0.
\<close>

theorem acceptance_not_monotone_for_degenerate_results:
  "currentEfficiency holding_A = Inr (Fin 2)
   \<and> newEfficiency_of (Single result_zero_distance) = PosInf
   \<and> acceptedSolution (settle_all holding_A [(''C'', result_zero_distance)])
       = (Some [''C''], Some (Fin 30), Some (Fin 0))
   \<and> currentEfficiency (settle_all holding_A [(''C'', result_zero_distance)]) = Inr (Fin 0)
   \<and> acceptedSolution (settle_all holding_A [(''C'', result_zero_distance), (''D'', route_D)])
       = (Some [''D''], Some (Fin 1), Some (Fin 4))
   \<and> currentEfficiency (settle_all holding_A [(''C'', result_zero_distance), (''D'', route_D)])
       = Inr (Fin (1 / 4))
   \<and> \<not> js_ge (Fin (1 / 4)) (Fin 2)
   \<and> currentEfficiency holding_zero_kp = Inr (Fin 0)
   \<and> newEfficiency_of (Single result_zero_kp) = Fin 0
   \<and> acceptedSolution (findBest_settled holding_zero_kp ''E'' (Inr (Single result_zero_kp)))
       = (Some [''E''], Some (Fin 0), Some (Fin 7))
   \<and> acceptedSolution holding_zero_kp = (Some [''Z''], Some (Fin 0), Some (Fin 5))"
proof -
  have d2: "round_double 2 = Fin 2" by code_simp
  have d4: "round_double (1 / 4) = Fin (1 / 4)" by code_simp
  have d0: "round_double 0 = Fin 0" by (simp add: round_double_def)
  have 1: "currentEfficiency holding_A = Inr (Fin 2)"
    by (simp add: currentEfficiency_def holding_A_def new_OCRProcessor_def d2)
  have 2: "newEfficiency_of (Single result_zero_distance) = PosInf"
    by (simp add: newEfficiency_of_def result_zero_distance_def)
  have 3: "acceptedSolution (findBest_settled holding_A ''C'' (Inr (Single result_zero_distance)))
             = (Some [''C''], Some (Fin 30), Some (Fin 0))"
    by (simp add: findBest_settled_solution 1 2) (simp add: result_zero_distance_def)
  then have 4: "currentEfficiency (findBest_settled holding_A ''C'' (Inr (Single result_zero_distance)))
             = Inr (Fin 0)"
    by (simp add: currentEfficiency_def acceptedSolution_def)
  have 5: "acceptedSolution
             (findBest_settled (findBest_settled holding_A ''C'' (Inr (Single result_zero_distance)))
                ''D'' (Inr (Single route_D)))
           = (Some [''D''], Some (Fin 1), Some (Fin 4))"
    by (simp add: findBest_settled_solution 4) (simp add: route_D_def)
  then have 6: "currentEfficiency
             (findBest_settled (findBest_settled holding_A ''C'' (Inr (Single result_zero_distance)))
                ''D'' (Inr (Single route_D)))
           = Inr (Fin (1 / 4))"
    by (simp add: currentEfficiency_def acceptedSolution_def d4)
  have 7: "\<not> js_ge (Fin (1 / 4)) (Fin 2)"
    by (simp add: js_ge_def)
  have 8: "currentEfficiency holding_zero_kp = Inr (Fin 0)"
    by (simp add: currentEfficiency_def holding_zero_kp_def new_OCRProcessor_def d0)
  have 9: "newEfficiency_of (Single result_zero_kp) = Fin 0"
    by (simp add: newEfficiency_of_def result_zero_kp_def d0)
  have 10: "acceptedSolution (findBest_settled holding_zero_kp ''E'' (Inr (Single result_zero_kp)))
       = (Some [''E''], Some (Fin 0), Some (Fin 7))"
    by (simp add: findBest_settled_solution 8) (simp add: result_zero_kp_def)
  have 11: "acceptedSolution holding_zero_kp = (Some [''Z''], Some (Fin 0), Some (Fin 5))"
    by (simp add: acceptedSolution_def holding_zero_kp_def new_OCRProcessor_def)
  from 1 2 3 4 5 6 7 8 9 10 11 show ?thesis by simp
qed

text \<open>
  C1 (amended). When a search completes with result \<open>optimalResp\<close>, the accepted
  solution becomes that of \<open>optimalResp\<close> if the current accepted efficiency is 0 or the
  efficiency of \<open>optimalResp\<close> is strictly greater, and stays as it is otherwise. Hence,
  from a state whose accepted solution is cleared or a route and for results that are
  routes (at least one bounty, finite positive KP and distance), the accepted efficiency
  never decreases along a sequence of completions; and a result whose efficiency equals
  an accepted efficiency other than 0 does not replace the accepted solution.
\<close>

theorem acceptance_strict_improvement:
  "(let accept = (case currentEfficiency s of
                    Inl e \<Rightarrow> False
                  | Inr cur \<Rightarrow> cur = Fin 0 \<or> js_gt (newEfficiency_of optimalResp) cur);
        s' = findBest_settled s sig (Inr optimalResp)
    in (accept \<longrightarrow> acceptedSolution s'
                     = (resp_bounties optimalResp, resp_kp optimalResp, resp_distance optimalResp))
       \<and> (\<not> accept \<longrightarrow> acceptedSolution s' = acceptedSolution s))
   \<and> (route_state s \<and> list_all is_route (map snd (rs1 @ rs2)) \<longrightarrow>
        route_state (settle_all s (rs1 @ rs2))
        \<and> (\<exists>a b. currentEfficiency (settle_all s (rs1 @ rs2)) = Inr a
               \<and> currentEfficiency (settle_all s rs1) = Inr b \<and> js_ge a b))
   \<and> (currentEfficiency s = Inr cur \<and> cur \<noteq> Fin 0 \<and> newEfficiency_of optimalResp = cur \<longrightarrow>
        acceptedSolution (findBest_settled s sig (Inr optimalResp)) = acceptedSolution s)"
proof (intro conjI)
  show "let accept = (case currentEfficiency s of
                    Inl e \<Rightarrow> False
                  | Inr cur \<Rightarrow> cur = Fin 0 \<or> js_gt (newEfficiency_of optimalResp) cur);
        s' = findBest_settled s sig (Inr optimalResp)
    in (accept \<longrightarrow> acceptedSolution s'
                     = (resp_bounties optimalResp, resp_kp optimalResp, resp_distance optimalResp))
       \<and> (\<not> accept \<longrightarrow> acceptedSolution s' = acceptedSolution s)"
    by (simp add: Let_def findBest_settled_solution)
next
  show "route_state s \<and> list_all is_route (map snd (rs1 @ rs2)) \<longrightarrow>
        route_state (settle_all s (rs1 @ rs2))
        \<and> (\<exists>a b. currentEfficiency (settle_all s (rs1 @ rs2)) = Inr a
               \<and> currentEfficiency (settle_all s rs1) = Inr b \<and> js_ge a b)"
  proof
    assume a: "route_state s \<and> list_all is_route (map snd (rs1 @ rs2))"
    then have 1: "route_state (settle_all s rs1)"
      using settle_all_monotone[of s rs1] by simp
    from a have 2: "list_all is_route (map snd rs2)" by simp
    from settle_all_monotone[OF 1 2]
    show "route_state (settle_all s (rs1 @ rs2))
        \<and> (\<exists>a b. currentEfficiency (settle_all s (rs1 @ rs2)) = Inr a
               \<and> currentEfficiency (settle_all s rs1) = Inr b \<and> js_ge a b)"
      by (simp add: settle_all_append)
  qed
next
  show "currentEfficiency s = Inr cur \<and> cur \<noteq> Fin 0 \<and> newEfficiency_of optimalResp = cur \<longrightarrow>
        acceptedSolution (findBest_settled s sig (Inr optimalResp)) = acceptedSolution s"
  proof
    assume a: "currentEfficiency s = Inr cur \<and> cur \<noteq> Fin 0 \<and> newEfficiency_of optimalResp = cur"
    have "\<not> js_gt cur cur" by (cases cur) simp_all
    with a show "acceptedSolution (findBest_settled s sig (Inr optimalResp)) = acceptedSolution s"
      by (simp add: findBest_settled_solution)
  qed
qed

theorem acceptance_strict_improvement_witness:
  "acceptedSolution (findBest_settled (new_OCRProcessor 20000 5) ''A'' (Inr (Single route_A)))
     = (Some [''A''], Some (Fin 10), Some (Fin 5))
   \<and> (\<exists>a b. currentEfficiency
               (settle_all (new_OCRProcessor 20000 5) ([(''A'', route_A)] @ [(''B'', route_B)]))
               = Inr a
          \<and> currentEfficiency (settle_all (new_OCRProcessor 20000 5) [(''A'', route_A)]) = Inr b
          \<and> js_ge a b)
   \<and> acceptedSolution (findBest_settled holding_A ''B'' (Inr (Single route_B)))
       = (Some [''A''], Some (Fin 10), Some (Fin 5))
   \<and> (1125899918101623 / 1125899906842624 :: rat) < 100000001 / 100000000
   \<and> acceptedSolution (findBest_settled holding_rounded ''B'' (Inr (Single route_rounded)))
       = (Some [''A''], Some (Fin (1125899918101623 / 1125899906842624)), Some (Fin 1))
   \<and> acceptedSolution (findBest_settled (new_OCRProcessor 20000 5) ''A'' (Inr (Many [])))
       = (None, None, None)
   \<and> acceptedSolution (findBest_settled holding_A ''A'' (Inr (Many [])))
       = (Some [''A''], Some (Fin 10), Some (Fin 5))"
proof -
  have d2: "round_double 2 = Fin 2" by code_simp
  have dr: "round_double (1125899918101623 / 1125899906842624)
              = Fin (1125899918101623 / 1125899906842624)"
    by code_simp
  have dn: "round_double (100000001 / 100000000) = Fin (1125899918101623 / 1125899906842624)"
    by code_simp
  have e0: "currentEfficiency (new_OCRProcessor 20000 5) = Inr (Fin 0)"
    by (simp add: currentEfficiency_def new_OCRProcessor_def)
  have r0: "route_state (new_OCRProcessor 20000 5)"
    by (simp add: route_state_def new_OCRProcessor_def)
  have rs: "list_all is_route (map snd ([(''A'', route_A)] @ [(''B'', route_B)]))"
    by (simp add: is_route_def route_A_def route_B_def)
  have rA: "currentEfficiency holding_A = Inr (Fin 2)" "Fin 2 \<noteq> Fin 0"
    "newEfficiency_of (Single route_B) = Fin 2"
    "acceptedSolution holding_A = (Some [''A''], Some (Fin 10), Some (Fin 5))"
    by (simp_all add: holding_A_def new_OCRProcessor_def route_B_def newEfficiency_of_def
        currentEfficiency_def acceptedSolution_def d2)
  have rR: "currentEfficiency holding_rounded = Inr (Fin (1125899918101623 / 1125899906842624))"
    "Fin (1125899918101623 / 1125899906842624) \<noteq> Fin 0"
    "newEfficiency_of (Single route_rounded) = Fin (1125899918101623 / 1125899906842624)"
    "acceptedSolution holding_rounded
       = (Some [''A''], Some (Fin (1125899918101623 / 1125899906842624)), Some (Fin 1))"
    by (simp_all add: holding_rounded_def new_OCRProcessor_def route_rounded_def
        newEfficiency_of_def currentEfficiency_def acceptedSolution_def dr dn)
  have nn: "newEfficiency_of (Many []) = NaN"
    by (simp add: newEfficiency_of_def)
  note t1 = acceptance_strict_improvement[where s = "new_OCRProcessor 20000 5"
      and optimalResp = "Single route_A" and sig = "''A''"
      and ?rs1.0 = "[(''A'', route_A)]" and ?rs2.0 = "[(''B'', route_B)]" and cur = "Fin 2"]
  from t1 e0 have 1:
    "acceptedSolution (findBest_settled (new_OCRProcessor 20000 5) ''A'' (Inr (Single route_A)))
       = (Some [''A''], Some (Fin 10), Some (Fin 5))"
    by (simp add: Let_def route_A_def)
  from t1 r0 rs have 2:
    "\<exists>a b. currentEfficiency
             (settle_all (new_OCRProcessor 20000 5) ([(''A'', route_A)] @ [(''B'', route_B)]))
             = Inr a
        \<and> currentEfficiency (settle_all (new_OCRProcessor 20000 5) [(''A'', route_A)]) = Inr b
        \<and> js_ge a b"
    by blast
  note t3 = acceptance_strict_improvement[where s = holding_A
      and optimalResp = "Single route_B" and sig = "''B''"
      and ?rs1.0 = "[]" and ?rs2.0 = "[]" and cur = "Fin 2"]
  from t3 rA have 3:
    "acceptedSolution (findBest_settled holding_A ''B'' (Inr (Single route_B)))
       = (Some [''A''], Some (Fin 10), Some (Fin 5))"
    by simp
  have 4: "(1125899918101623 / 1125899906842624 :: rat) < 100000001 / 100000000"
    by simp
  note t5 = acceptance_strict_improvement[where s = holding_rounded
      and optimalResp = "Single route_rounded" and sig = "''B''"
      and ?rs1.0 = "[]" and ?rs2.0 = "[]"
      and cur = "Fin (1125899918101623 / 1125899906842624)"]
  from t5 rR have 5:
    "acceptedSolution (findBest_settled holding_rounded ''B'' (Inr (Single route_rounded)))
       = (Some [''A''], Some (Fin (1125899918101623 / 1125899906842624)), Some (Fin 1))"
    by simp
  note t6 = acceptance_strict_improvement[where s = "new_OCRProcessor 20000 5"
      and optimalResp = "Many []" and sig = "''A''"
      and ?rs1.0 = "[]" and ?rs2.0 = "[]" and cur = "Fin 2"]
  from t6 e0 have 6:
    "acceptedSolution (findBest_settled (new_OCRProcessor 20000 5) ''A'' (Inr (Many [])))
       = (None, None, None)"
    by (simp add: Let_def)
  note t7 = acceptance_strict_improvement[where s = holding_A
      and optimalResp = "Many []" and sig = "''A''"
      and ?rs1.0 = "[]" and ?rs2.0 = "[]" and cur = "Fin 2"]
  from t7 rA nn have 7:
    "acceptedSolution (findBest_settled holding_A ''A'' (Inr (Many [])))
       = (Some [''A''], Some (Fin 10), Some (Fin 5))"
    by (simp add: Let_def)
  from 1 2 3 4 5 6 7 show ?thesis by blast
qed

section \<open>Triggers while a search is in flight\<close>

text \<open>
  C2. A trigger whose signature is that of the search in flight starts nothing and leaves
  the state as it is; hence, once a trigger has started a search, the same trigger
  repeated while that search is in flight starts no second one.
\<close>

theorem same_signature_trigger_ignored:
  "(inFlightFind s = Some f \<and> signature f = sig \<longrightarrow>
      launchFindBestIfNeeded s now allBounties boardOpen sig reason = s)
   \<and> (inFlightFind s = None \<longrightarrow>
      launchFindBestIfNeeded (launchFindBestIfNeeded s now allBounties boardOpen sig reason)
          now' allBounties' boardOpen' sig reason'
        = launchFindBestIfNeeded s now allBounties boardOpen sig reason)"
  by (simp add: launchFindBestIfNeeded_def startFindBest_def)

theorem same_signature_trigger_ignored_witness:
  "launchFindBestIfNeeded searching_A 500 [''A''] True ''A'' ''boardRefresh'' = searching_A
   \<and> effects (launchFindBestIfNeeded
                (launchFindBestIfNeeded (new_OCRProcessor 20000 5) 0 [''A''] True ''A'' ''firstRun'')
                500 [''A''] True ''A'' ''boardRefresh'')
       = [FindBestStarted [''A''] True ''A'' ''firstRun''
            \<lparr>maxCombinations = \<infinity>, pruningThreshold = 1\<rparr>]"
proof -
  have 1: "inFlightFind searching_A = Some \<lparr>signature = ''A'', startedAtMs = 0\<rparr>
           \<and> signature \<lparr>signature = ''A'', startedAtMs = 0\<rparr> = ''A''"
    by (simp add: searching_A_def)
  have 2: "inFlightFind (new_OCRProcessor 20000 5) = None"
    by (simp add: new_OCRProcessor_def)
  have 3: "effects (launchFindBestIfNeeded (new_OCRProcessor 20000 5) 0 [''A''] True ''A'' ''firstRun'')
           = [FindBestStarted [''A''] True ''A'' ''firstRun''
                \<lparr>maxCombinations = \<infinity>, pruningThreshold = 1\<rparr>]"
    by (simp add: launchFindBestIfNeeded_def startFindBest_def new_OCRProcessor_def
        pruningOptions_of_def qualitySettings_def)
  from same_signature_trigger_ignored[of searching_A "\<lparr>signature = ''A'', startedAtMs = 0\<rparr>"
      "''A''" 500 "[''A'']" True "''boardRefresh''"] 1
  have a: "launchFindBestIfNeeded searching_A 500 [''A''] True ''A'' ''boardRefresh'' = searching_A"
    by simp
  from same_signature_trigger_ignored[of "new_OCRProcessor 20000 5" _ "''A''" 0 "[''A'']" True
      "''firstRun''" 500 "[''A'']" True "''boardRefresh''"] 2
  have b: "launchFindBestIfNeeded
             (launchFindBestIfNeeded (new_OCRProcessor 20000 5) 0 [''A''] True ''A'' ''firstRun'')
             500 [''A''] True ''A'' ''boardRefresh''
           = launchFindBestIfNeeded (new_OCRProcessor 20000 5) 0 [''A''] True ''A'' ''firstRun''"
    by simp
  from a b 3 show ?thesis by simp
qed

text \<open>
  The claim that staleness unblocks a trigger whatever its signature fails when the
  trigger carries the signature of the stale search: the guard on the signature comes
  first. Here a search for \<open>A\<close> started at 0 with a deadline of 20000 ms is
  stale at 30000, and a trigger for \<open>A\<close> is still ignored.
\<close>

theorem stale_same_signature_still_blocks:
  "30000 - startedAtMs \<lparr>signature = ''A'', startedAtMs = 0\<rparr>
     > pathfinderTimeoutMs searching_A + 1000
   \<and> inFlightFind (launchFindBestIfNeeded searching_A 30000 [''A''] True ''A'' ''boardRefresh'')
       = Some \<lparr>signature = ''A'', startedAtMs = 0\<rparr>
   \<and> effects (launchFindBestIfNeeded searching_A 30000 [''A''] True ''A'' ''boardRefresh'') = []"
  by (simp add: launchFindBestIfNeeded_def searching_A_def new_OCRProcessor_def)

text \<open>
  C3 (amended). When a trigger arrives while the search in flight is older than the
  deadline plus 1000 ms: if the trigger's signature differs from that search's, the
  stale search is discarded with a warning and the trigger starts a new search; if the
  signatures are equal, the trigger is ignored and the stale search stays in flight.
\<close>

theorem stale_search_unblocks_other_signatures:
  "inFlightFind s = Some f \<and> now - startedAtMs f > pathfinderTimeoutMs s + 1000 \<longrightarrow>
     (signature f \<noteq> sig \<longrightarrow>
        (let s' = launchFindBestIfNeeded s now allBounties boardOpen sig reason
         in inFlightFind s' = Some \<lparr>signature = sig, startedAtMs = now\<rparr>
            \<and> effects s' = effects s @
                 [StaleWarning (now - startedAtMs f) (signature f) sig,
                  FindBestStarted allBounties boardOpen sig reason
                    (pruningOptions_of (forceOptimal s) (pathfindingQuality s))]))
     \<and> (signature f = sig \<longrightarrow>
          launchFindBestIfNeeded s now allBounties boardOpen sig reason = s)"
  by (simp add: launchFindBestIfNeeded_def startFindBest_def Let_def)

theorem stale_search_unblocks_other_signatures_witness:
  "inFlightFind (launchFindBestIfNeeded searching_A 30000 [''B''] True ''B'' ''boardRefresh'')
     = Some \<lparr>signature = ''B'', startedAtMs = 30000\<rparr>
   \<and> effects (launchFindBestIfNeeded searching_A 30000 [''B''] True ''B'' ''boardRefresh'')
     = [StaleWarning 30000 ''A'' ''B'',
        FindBestStarted [''B''] True ''B'' ''boardRefresh''
          \<lparr>maxCombinations = \<infinity>, pruningThreshold = 1\<rparr>]"
proof -
  have 1: "inFlightFind searching_A = Some \<lparr>signature = ''A'', startedAtMs = 0\<rparr>"
    "30000 - startedAtMs \<lparr>signature = ''A'', startedAtMs = 0\<rparr>
       > pathfinderTimeoutMs searching_A + 1000"
    "signature \<lparr>signature = ''A'', startedAtMs = 0\<rparr> \<noteq> ''B''"
    "effects searching_A = []"
    "pruningOptions_of (forceOptimal searching_A) (pathfindingQuality searching_A)
       = \<lparr>maxCombinations = \<infinity>, pruningThreshold = 1\<rparr>"
    by (simp_all add: searching_A_def new_OCRProcessor_def pruningOptions_of_def
        qualitySettings_def)
  from stale_search_unblocks_other_signatures[of searching_A
      "\<lparr>signature = ''A'', startedAtMs = 0\<rparr>" 30000 "''B''" "[''B'']" True "''boardRefresh''"] 1
  show ?thesis by (simp add: Let_def)
qed

section \<open>Failed searches\<close>

text \<open>
  C9. When the computation of a search throws, the completion leaves the accepted
  solution (bounties, KP, distance), the steps, the step cursor and the display values
  as they were; and whether the computation succeeded or threw, the force-optimal flag
  is clear afterwards.
\<close>

theorem failed_search_keeps_state:
  "(let s' = findBest_settled s sig (Inl e)
    in acceptedSolution s' = acceptedSolution s \<and> steps s' = steps s \<and> stepIdx s' = stepIdx s
       \<and> displaySteps s' = displaySteps s \<and> displayKp s' = displayKp s
       \<and> displayDistanceSeconds s' = displayDistanceSeconds s)
   \<and> \<not> forceOptimal (findBest_settled s sig outcome)"
proof -
  define s1 where "s1 = computeFindBest_settled s outcome"
  define s2 where "s2 = (case outcome of
                  Inl e \<Rightarrow> s1
                | Inr optimalResp \<Rightarrow>
                    let newEfficiency = newEfficiency_of optimalResp
                    in (case currentEfficiency s1 of
                          Inl e \<Rightarrow> s1
                        | Inr cur \<Rightarrow>
                            if cur = Fin 0 \<or> js_gt newEfficiency cur
                            then (case acceptSolution s1 optimalResp of
                                    (s', Some e) \<Rightarrow> s'
                                  | (s', None) \<Rightarrow> s'\<lparr>prevAllBountiesSignature := sig\<rparr>)
                            else s1\<lparr>prevAllBountiesSignature := sig\<rparr>))"
  have f: "\<not> forceOptimal s1"
    by (simp add: s1_def computeFindBest_settled_def split: sum.splits)
  have a: "forceOptimal (fst (acceptSolution t res)) = forceOptimal t" for t res
    by (simp add: acceptSolution_def Let_def split: option.splits)
  have f2: "\<not> forceOptimal s2"
  proof (cases outcome)
    case (Inl e)
    with f show ?thesis by (simp add: s2_def)
  next
    case (Inr optimalResp)
    show ?thesis
    proof (cases "currentEfficiency s1")
      case (Inl e)
      with Inr f show ?thesis by (simp add: s2_def)
    next
      case cur: (Inr cur)
      obtain s' thrown where acc: "acceptSolution s1 optimalResp = (s', thrown)"
        by (cases "acceptSolution s1 optimalResp")
      with a[of s1 optimalResp] f have "\<not> forceOptimal s'" by simp
      with Inr cur acc f show ?thesis
        by (cases thrown) (simp_all add: s2_def Let_def)
    qed
  qed
  have fin: "findBest_settled s sig outcome =
               (case inFlightFind s2 of
                  None \<Rightarrow> s2
                | Some f \<Rightarrow> if signature f = sig then s2\<lparr>inFlightFind := None\<rparr> else s2)"
    unfolding findBest_settled_def s2_def s1_def Let_def ..
  have "\<not> forceOptimal (findBest_settled s sig outcome)"
    unfolding fin using f2 by (simp split: option.splits)
  moreover have "let s' = findBest_settled s sig (Inl e)
    in acceptedSolution s' = acceptedSolution s \<and> steps s' = steps s \<and> stepIdx s' = stepIdx s
       \<and> displaySteps s' = displaySteps s \<and> displayKp s' = displayKp s
       \<and> displayDistanceSeconds s' = displayDistanceSeconds s"
    by (simp add: findBest_settled_def computeFindBest_settled_def Let_def acceptedSolution_def
        split: option.splits)
  ultimately show ?thesis by simp
qed

section \<open>Drop indicators: the grouping loop\<close>


subsection \<open>Slot maps\<close>

lemma sorted_keys_of: "sorted (keys_of d)"
  by (simp add: keys_of_def)

lemma distinct_keys_of: "distinct (keys_of d)"
  by (simp add: keys_of_def)

lemma set_keys_of: "set (keys_of d) = fst ` set d"
  by (simp add: keys_of_def)

lemma keys_of_map_of: "idx \<in> set (keys_of d) \<longleftrightarrow> map_of d idx \<noteq> None"
  by (simp add: set_keys_of map_of_eq_None_iff)

lemma sorted_slots_holding: "sorted (slots_holding d b)"
  by (simp add: slots_holding_def sorted_wrt_filter sorted_keys_of)

lemma distinct_slots_holding: "distinct (slots_holding d b)"
  by (simp add: slots_holding_def distinct_keys_of)

lemma set_slots_holding: "set (slots_holding d b) = {idx. map_of d idx = Some b}"
  by (auto simp: slots_holding_def keys_of_map_of)

subsection \<open>The grouping loop\<close>

lemma push_index_keys:
  "map fst (push_index acc b i) = (if b \<in> fst ` set acc then map fst acc else map fst acc @ [b])"
  by (induction acc b i rule: push_index.induct) (auto simp: image_iff)

lemma push_index_distinct:
  "distinct (map fst acc) \<Longrightarrow> distinct (map fst (push_index acc b i))"
  by (simp add: push_index_keys)

lemma push_index_map_of:
  "map_of (push_index acc b i) b' =
     (if b' = b then Some ((case map_of acc b of None \<Rightarrow> [] | Some idxs \<Rightarrow> idxs) @ [i])
      else map_of acc b')"
  by (induction acc b i rule: push_index.induct) auto

lemma push_index_mset:
  "mset (concat (map snd (push_index acc b i))) = mset (concat (map snd acc)) + {#i#}"
  by (induction acc b i rule: push_index.induct) auto

lemma group_distinct:
  "distinct (map fst acc) \<Longrightarrow> distinct (map fst (foldl (bountyIndices_step d) acc ks))"
  by (induction ks arbitrary: acc)
     (auto simp: bountyIndices_step_def push_index_distinct split: option.splits)

lemma group_map_of:
  "map_of (foldl (bountyIndices_step d) acc ks) b =
     (if filter (\<lambda>i. map_of d i = Some b) ks = [] then map_of acc b
      else Some ((case map_of acc b of None \<Rightarrow> [] | Some idxs \<Rightarrow> idxs)
                 @ filter (\<lambda>i. map_of d i = Some b) ks))"
proof (induction ks arbitrary: acc)
  case Nil
  then show ?case by simp
next
  case (Cons k ks)
  show ?case
  proof (cases "map_of d k")
    case None
    then show ?thesis using Cons.IH[of acc] by (simp add: bountyIndices_step_def)
  next
    case (Some c)
    then show ?thesis
      using Cons.IH[of "push_index acc c k"]
      by (simp add: bountyIndices_step_def push_index_map_of)
  qed
qed

lemma group_mset:
  "mset (concat (map snd (foldl (bountyIndices_step d) acc ks))) =
     mset (concat (map snd acc)) + mset (filter (\<lambda>i. map_of d i \<noteq> None) ks)"
proof (induction ks arbitrary: acc)
  case Nil
  then show ?case by simp
next
  case (Cons k ks)
  show ?case
    using Cons.IH[of "bountyIndices_step d acc k"]
    by (cases "map_of d k") (simp_all add: bountyIndices_step_def push_index_mset)
qed

lemma bountyIndices_distinct: "distinct (map fst (bountyIndices_of d))"
  by (simp add: bountyIndices_of_def group_distinct)

lemma bountyIndices_map_of:
  "map_of (bountyIndices_of d) b =
     (if slots_holding d b = [] then None else Some (slots_holding d b))"
  by (simp add: bountyIndices_of_def group_map_of slots_holding_def)

lemma bountyIndices_all_distinct: "distinct (concat (map snd (bountyIndices_of d)))"
proof -
  have "mset (concat (map snd (bountyIndices_of d)))
          = mset (filter (\<lambda>i. map_of d i \<noteq> None) (keys_of d))"
    by (simp add: bountyIndices_of_def group_mset)
  moreover have "distinct (filter (\<lambda>i. map_of d i \<noteq> None) (keys_of d))"
    by (simp add: distinct_keys_of)
  ultimately show ?thesis
    by (metis mset_eq_imp_distinct_iff)
qed

lemma bountyIndices_member:
  "(b, idxs) \<in> set (bountyIndices_of d) \<longleftrightarrow> idxs = slots_holding d b \<and> idxs \<noteq> []"
proof
  assume "(b, idxs) \<in> set (bountyIndices_of d)"
  then have "map_of (bountyIndices_of d) b = Some idxs"
    using bountyIndices_distinct by (simp add: map_of_eq_Some_iff)
  then show "idxs = slots_holding d b \<and> idxs \<noteq> []"
    by (auto simp: bountyIndices_map_of split: if_splits)
next
  assume "idxs = slots_holding d b \<and> idxs \<noteq> []"
  then have "map_of (bountyIndices_of d) b = Some idxs"
    by (auto simp: bountyIndices_map_of)
  then show "(b, idxs) \<in> set (bountyIndices_of d)"
    by (rule map_of_SomeD)
qed

subsection \<open>Drop indicators\<close>

lemma activeDrops_of_open:
  "activeDrops_of False True d opt r now = concat (map (drops_of_bounty opt r now) (bountyIndices_of d))"
  by (simp add: activeDrops_of_def)

lemma drops_of_bounty_slots:
  "drops_of_bounty opt r now (b, slots_holding d b) =
     filter (\<lambda>idx. \<not> in_grace r now idx) (lowest_excess d opt b)"
  by (simp add: drops_of_bounty_def lowest_excess_def Let_def sorted_sort_id sorted_slots_holding)

lemma drops_of_bounty_sub: "mset (drops_of_bounty opt r now p) \<subseteq># mset (snd p)"
proof -
  obtain b idxs where p: "p = (b, idxs)" by (cases p)
  have "mset (take n (sort idxs)) \<subseteq># mset idxs" for n
  proof -
    have "mset (take n (sort idxs)) \<subseteq># mset (take n (sort idxs)) + mset (drop n (sort idxs))"
      by simp
    also have "\<dots> = mset (sort idxs)"
      by (metis append_take_drop_id mset_append)
    finally show ?thesis by simp
  qed
  then have "mset (filter P (take n (sort idxs))) \<subseteq># mset idxs" for P n
    by (metis mset_filter multiset_filter_subset subset_mset.order_trans)
  then show ?thesis
    by (simp add: p drops_of_bounty_def Let_def)
qed

lemma concat_map_sub:
  "(\<And>p. mset (f p) \<subseteq># mset (snd p)) \<Longrightarrow>
     mset (concat (map f ps)) \<subseteq># mset (concat (map snd ps))"
  by (induction ps) (auto intro: subset_mset.add_mono)

lemma distinct_sub_mset:
  assumes "mset xs \<subseteq># mset ys" "distinct ys"
  shows "distinct xs"
proof -
  have le: "count (mset xs) a \<le> 1" for a
  proof -
    have "count (mset xs) a \<le> count (mset ys) a"
      using assms(1) by (rule mset_subset_eq_count)
    also have "\<dots> \<le> 1"
      using assms(2) by (simp add: distinct_count_atmost_1)
    finally show ?thesis .
  qed
  have "count (mset xs) a = (if a \<in> set xs then 1 else 0)" for a
  proof (cases "a \<in> set xs")
    case True
    then have "0 < count (mset xs) a" by (simp add: count_greater_zero_iff)
    with le[of a] True show ?thesis by arith
  next
    case False
    then show ?thesis by simp
  qed
  then show ?thesis by (simp add: distinct_count_atmost_1)
qed

lemma activeDrops_distinct: "distinct (activeDrops_of False True d opt r now)"
proof -
  have "mset (activeDrops_of False True d opt r now)
          \<subseteq># mset (concat (map snd (bountyIndices_of d)))"
    unfolding activeDrops_of_open by (rule concat_map_sub) (rule drops_of_bounty_sub)
  then show ?thesis
    using bountyIndices_all_distinct[of d] by (rule distinct_sub_mset)
qed

lemma activeDrops_set:
  "set (activeDrops_of False True d opt r now) =
     {idx. \<exists>b. idx \<in> set (lowest_excess d opt b) \<and> \<not> in_grace r now idx}"
proof (intro set_eqI iffI)
  fix idx
  assume "idx \<in> set (activeDrops_of False True d opt r now)"
  then obtain b idxs where m: "(b, idxs) \<in> set (bountyIndices_of d)"
    and i: "idx \<in> set (drops_of_bounty opt r now (b, idxs))"
    unfolding activeDrops_of_open by auto
  from m have "idxs = slots_holding d b" by (simp add: bountyIndices_member)
  with i show "idx \<in> {idx. \<exists>b. idx \<in> set (lowest_excess d opt b) \<and> \<not> in_grace r now idx}"
    by (auto simp: drops_of_bounty_slots)
next
  fix idx
  assume "idx \<in> {idx. \<exists>b. idx \<in> set (lowest_excess d opt b) \<and> \<not> in_grace r now idx}"
  then obtain b where i: "idx \<in> set (lowest_excess d opt b)" and g: "\<not> in_grace r now idx"
    by blast
  from i have "slots_holding d b \<noteq> []" by (auto simp: lowest_excess_def)
  then have "(b, slots_holding d b) \<in> set (bountyIndices_of d)"
    by (simp add: bountyIndices_member)
  moreover from i g have "idx \<in> set (drops_of_bounty opt r now (b, slots_holding d b))"
    by (simp add: drops_of_bounty_slots)
  ultimately show "idx \<in> set (activeDrops_of False True d opt r now)"
    unfolding activeDrops_of_open by force
qed

section \<open>Drop indicators: the claims\<close>

lemma distinct_singleton:
  assumes "distinct xs" "set xs = {a}"
  shows "xs = [a]"
proof (cases xs)
  case Nil
  with assms show ?thesis by simp
next
  case (Cons x l)
  with assms have x: "x = a" by auto
  from Cons assms x have "set l \<subseteq> {a}" "a \<notin> set l" by auto
  then have "set l = {}" by (auto dest: subset_singletonD)
  then have "l = []" by simp
  with Cons x show ?thesis by simp
qed

text \<open>
  C4. On a tick with an accepted solution: if a search is in flight or the board is
  closed, no slot is flagged as drop; otherwise the flagged slots are, for each held
  bounty, the lowest-index slots in excess of the count the accepted solution allows,
  except those still inside their grace window, each flagged once.
\<close>

theorem drop_indicators:
  "(recomputeInFlight \<or> \<not> boardOpen \<longrightarrow>
      activeDrops_of recomputeInFlight boardOpen d opt r now = [])
   \<and> (\<not> recomputeInFlight \<and> boardOpen \<longrightarrow>
      set (activeDrops_of recomputeInFlight boardOpen d opt r now)
        = {idx. \<exists>b. idx \<in> set (lowest_excess d opt b) \<and> \<not> in_grace r now idx}
      \<and> distinct (activeDrops_of recomputeInFlight boardOpen d opt r now))"
proof (intro conjI impI)
  assume "recomputeInFlight \<or> \<not> boardOpen"
  then show "activeDrops_of recomputeInFlight boardOpen d opt r now = []"
    by (auto simp: activeDrops_of_def)
next
  assume "\<not> recomputeInFlight \<and> boardOpen"
  then show "set (activeDrops_of recomputeInFlight boardOpen d opt r now)
        = {idx. \<exists>b. idx \<in> set (lowest_excess d opt b) \<and> \<not> in_grace r now idx}"
    by (simp add: activeDrops_set)
next
  assume "\<not> recomputeInFlight \<and> boardOpen"
  then show "distinct (activeDrops_of recomputeInFlight boardOpen d opt r now)"
    by (simp add: activeDrops_distinct)
qed

theorem drop_indicators_witness:
  "activeDrops_of True True active_AAAB optimal_AAB no_grace 0 = []
   \<and> activeDrops_of False False active_AAAB optimal_AAB no_grace 0 = []
   \<and> 1 \<in> set (activeDrops_of False True active_AAAB optimal_AAB no_grace 0)
   \<and> 2 \<notin> set (activeDrops_of False True active_AAAB optimal_AAB no_grace 0)
   \<and> distinct (activeDrops_of False True active_AAAB optimal_AAB no_grace 0)"
proof -
  have k: "keys_of active_AAAB = [1, 2, 3, 4]"
    by (simp add: keys_of_def active_AAAB_def)
  have le: "lowest_excess active_AAAB optimal_AAB b = (if b = ''A'' then [1] else [])" for b
    by (simp add: lowest_excess_def slots_holding_def k) (simp add: active_AAAB_def optimal_AAB_def)
  have g: "\<not> in_grace no_grace 0 idx" for idx
    by (simp add: in_grace_def no_grace_def)
  have s: "{idx. \<exists>b. idx \<in> set (lowest_excess active_AAAB optimal_AAB b) \<and> \<not> in_grace no_grace 0 idx}
           = {1}"
    by (auto simp: le g split: if_splits)
  from drop_indicators[of True True active_AAAB optimal_AAB no_grace 0]
  have 1: "activeDrops_of True True active_AAAB optimal_AAB no_grace 0 = []" by simp
  from drop_indicators[of False False active_AAAB optimal_AAB no_grace 0]
  have 2: "activeDrops_of False False active_AAAB optimal_AAB no_grace 0 = []" by simp
  from drop_indicators[of False True active_AAAB optimal_AAB no_grace 0] s
  have 3: "set (activeDrops_of False True active_AAAB optimal_AAB no_grace 0) = {1}"
    and 4: "distinct (activeDrops_of False True active_AAAB optimal_AAB no_grace 0)"
    by simp_all
  from 1 2 3 4 show ?thesis by simp
qed

text \<open>
  With \<open>A\<close> in slots 1, 2 and 3, \<open>B\<close> in slot 4 and a solution that takes \<open>A\<close>
  twice and \<open>B\<close> once, the slot flagged is 1, the lowest-index slot that holds \<open>A\<close>,
  and not 3, the highest.
\<close>

theorem drop_example_flags_lowest_slot:
  "slots_holding active_AAAB ''A'' = [1, 2, 3]
   \<and> activeDrops_of False True active_AAAB optimal_AAB no_grace 0 = [1]
   \<and> activeDrops_of False True active_AAAB optimal_AAB no_grace 0 \<noteq> [3]"
proof -
  have k: "keys_of active_AAAB = [1, 2, 3, 4]"
    by (simp add: keys_of_def active_AAAB_def)
  have 1: "slots_holding active_AAAB ''A'' = [1, 2, 3]"
    by (simp add: slots_holding_def k) (simp add: active_AAAB_def)
  have b: "bountyIndices_of active_AAAB = [(''A'', [1, 2, 3]), (''B'', [4])]"
    by (simp add: bountyIndices_of_def k bountyIndices_step_def) (simp add: active_AAAB_def)
  have 2: "activeDrops_of False True active_AAAB optimal_AAB no_grace 0 = [1]"
    by (simp add: activeDrops_of_def b drops_of_bounty_def optimal_AAB_def in_grace_def no_grace_def)
  from 1 2 show ?thesis by simp
qed

text \<open>
  C5 (amended). If the accepted solution takes \<open>A\<close> twice and \<open>B\<close> once and the
  active slots hold \<open>A\<close> three times and \<open>B\<close> once, with the board open, no search in
  flight and no slot inside its grace window, then exactly one slot is flagged as drop,
  and it is the lowest-index slot that holds \<open>A\<close>.
\<close>

theorem drop_example:
  "slots_holding d ''A'' = [a1, a2, a3] \<and> slots_holding d ''B'' = [b1]
   \<and> (\<forall>idx b. map_of d idx = Some b \<longrightarrow> b = ''A'' \<or> b = ''B'')
   \<and> length (filter (\<lambda>b. b = ''A'') opt) = 2 \<and> length (filter (\<lambda>b. b = ''B'') opt) = 1
   \<and> (\<forall>idx. \<not> in_grace r now idx)
   \<longrightarrow> activeDrops_of False True d opt r now = [a1] \<and> a1 < a2 \<and> a2 < a3"
proof
  assume a: "slots_holding d ''A'' = [a1, a2, a3] \<and> slots_holding d ''B'' = [b1]
   \<and> (\<forall>idx b. map_of d idx = Some b \<longrightarrow> b = ''A'' \<or> b = ''B'')
   \<and> length (filter (\<lambda>b. b = ''A'') opt) = 2 \<and> length (filter (\<lambda>b. b = ''B'') opt) = 1
   \<and> (\<forall>idx. \<not> in_grace r now idx)"
  have other: "slots_holding d b = []" if "b \<noteq> ''A''" "b \<noteq> ''B''" for b
  proof -
    have "set (slots_holding d b) = {}"
      using a that by (auto simp: set_slots_holding)
    then show ?thesis by simp
  qed
  have le: "lowest_excess d opt b = (if b = ''A'' then [a1] else [])" for b
  proof -
    consider "b = ''A''" | "b = ''B''" | "b \<noteq> ''A''" "b \<noteq> ''B''" by blast
    then show ?thesis
    proof cases
      case 1
      with a show ?thesis by (simp add: lowest_excess_def)
    next
      case 2
      with a show ?thesis by (simp add: lowest_excess_def)
    next
      case 3
      with other[of b] show ?thesis by (simp add: lowest_excess_def)
    qed
  qed
  have "set (activeDrops_of False True d opt r now) = {a1}"
    using a by (auto simp: activeDrops_set le split: if_splits)
  then have 1: "activeDrops_of False True d opt r now = [a1]"
    using activeDrops_distinct by (rule distinct_singleton[rotated])
  have "sorted [a1, a2, a3]" "distinct [a1, a2, a3]"
    using a sorted_slots_holding[of d "''A''"] distinct_slots_holding[of d "''A''"] by simp_all
  then have 2: "a1 < a2 \<and> a2 < a3" by auto
  from 1 2 show "activeDrops_of False True d opt r now = [a1] \<and> a1 < a2 \<and> a2 < a3" by simp
qed

theorem drop_example_witness:
  "activeDrops_of False True active_AAAB optimal_AAB no_grace 0 = [1] \<and> (1::nat) < 2 \<and> (2::nat) < 3"
proof -
  have k: "keys_of active_AAAB = [1, 2, 3, 4]"
    by (simp add: keys_of_def active_AAAB_def)
  have h: "slots_holding active_AAAB ''A'' = [1, 2, 3]" "slots_holding active_AAAB ''B'' = [4]"
    by (simp_all add: slots_holding_def k) (simp_all add: active_AAAB_def)
  have m: "\<forall>idx b. map_of active_AAAB idx = Some b \<longrightarrow> b = ''A'' \<or> b = ''B''"
    by (auto simp: active_AAAB_def split: if_splits)
  have c: "length (filter (\<lambda>b. b = ''A'') optimal_AAB) = 2"
    "length (filter (\<lambda>b. b = ''B'') optimal_AAB) = 1"
    by (simp_all add: optimal_AAB_def)
  have g: "\<forall>idx. \<not> in_grace no_grace 0 idx"
    by (simp add: in_grace_def no_grace_def)
  from drop_example[of active_AAAB 1 2 3 4 optimal_AAB no_grace 0] h m c g
  show ?thesis by simp
qed

section \<open>Pickup indicators\<close>

lemma boardPickups_loop_filter:
  "sorted ks \<Longrightarrow> distinct ks \<Longrightarrow>
     boardPickups_loop board av opt pc ks =
       filter (\<lambda>idx. case map_of board idx of
                        None \<Rightarrow> False
                      | Some b \<Rightarrow>
                          b \<in> set opt
                          \<and> length (filter (\<lambda>x. x = b) av) + pc b
                              + length (filter (\<lambda>j. j < idx \<and> map_of board j = Some b) ks)
                              < length (filter (\<lambda>x. x = b) opt)) ks"
proof (induction ks arbitrary: pc)
  case Nil
  then show ?case by simp
next
  case (Cons k ks)
  let ?P = "\<lambda>pc ks idx. case map_of board idx of
                        None \<Rightarrow> False
                      | Some b \<Rightarrow>
                          b \<in> set opt
                          \<and> length (filter (\<lambda>x. x = b) av) + pc b
                              + length (filter (\<lambda>j. j < idx \<and> map_of board j = Some b) ks)
                              < length (filter (\<lambda>x. x = b) opt)"
  from Cons.prems have sd: "sorted ks" "distinct ks" and lt: "\<forall>j \<in> set ks. k < j"
    by (auto simp: order_less_le)
  define P' where "P' = ?P pc (k # ks)"
  have head: "P' k \<longleftrightarrow>
      (case map_of board k of
         None \<Rightarrow> False
       | Some b \<Rightarrow> b \<in> set opt \<and> length (filter (\<lambda>x. x = b) av) + pc b
                     < length (filter (\<lambda>x. x = b) opt))"
  proof -
    have "filter (\<lambda>j. j < k \<and> Q j) (k # ks) = []" for Q
      using lt by (auto simp: filter_empty_conv)
    then show ?thesis
      unfolding P'_def by (simp split: option.splits)
  qed
  have IH: "boardPickups_loop board av opt pc' ks = filter (?P pc' ks) ks" for pc'
    using Cons.IH[OF sd] .
  have "boardPickups_loop board av opt pc (k # ks) = filter P' (k # ks)"
  proof (cases "map_of board k")
    case None
    have "filter P' ks = filter (?P pc ks) ks"
      unfolding P'_def using lt
      by (intro filter_cong[OF refl]) (auto simp: None split: option.splits)
    with None head show ?thesis by (simp add: IH)
  next
    case (Some b)
    show ?thesis
    proof (cases "b \<in> set opt \<and> length (filter (\<lambda>x. x = b) av) + pc b
                    < length (filter (\<lambda>x. x = b) opt)")
      case True
      have "filter P' ks = filter (?P (pc(b := Suc (pc b))) ks) ks"
        unfolding P'_def using lt
        by (intro filter_cong[OF refl]) (auto simp: Some split: option.splits)
      moreover from True Some head have "P' k" by simp
      ultimately show ?thesis using True Some by (simp add: IH Let_def)
    next
      case False
      have "filter P' ks = filter (?P pc ks) ks"
        unfolding P'_def using False lt
        by (intro filter_cong[OF refl]) (auto simp: Some split: option.splits)
      moreover from False Some head have "\<not> P' k" by simp
      ultimately show ?thesis using False Some by (auto simp: IH Let_def)
    qed
  qed
  then show ?case unfolding P'_def .
qed

lemma boardPickups_wanted:
  "boardPickups_of True board active opt = filter (pickup_wanted board active opt) (keys_of board)"
proof -
  have "boardPickups_of True board active opt =
          boardPickups_loop board (values_of active) opt (\<lambda>b. 0) (keys_of board)"
    by (simp add: boardPickups_of_def)
  also have "\<dots> = filter (pickup_wanted board active opt) (keys_of board)"
    unfolding boardPickups_loop_filter[OF sorted_keys_of distinct_keys_of]
    by (rule filter_cong[OF refl])
       (simp add: pickup_wanted_def slots_holding_def conj_commute split: option.splits)
  finally show ?thesis .
qed

lemma pickup_example_general:
  assumes A: "slots_holding board ''A'' = [i1, i2]"
    and C: "slots_holding board ''C'' = [c]"
    and only: "\<forall>idx b. map_of board idx = Some b \<longrightarrow> b = ''A'' \<or> b = ''C''"
    and act: "length (filter (\<lambda>b. b = ''A'') (values_of active)) = 1"
    and optA: "length (filter (\<lambda>b. b = ''A'') opt) = 2"
    and optC: "''C'' \<notin> set opt"
  shows "boardPickups_of True board active opt = [i1]"
proof -
  have lt: "i1 < i2"
    using A sorted_slots_holding[of board "''A''"] distinct_slots_holding[of board "''A''"]
    by auto
  have inA: "''A'' \<in> set opt"
  proof (rule ccontr)
    assume "''A'' \<notin> set opt"
    then have "filter (\<lambda>b. b = ''A'') opt = []" by (auto simp: filter_empty_conv)
    with optA show False by simp
  qed
  have mA: "map_of board idx = Some ''A'' \<longleftrightarrow> idx = i1 \<or> idx = i2" for idx
    using set_slots_holding[of board "''A''"] A by auto
  have w: "pickup_wanted board active opt idx \<longleftrightarrow> idx = i1" for idx
  proof (cases "map_of board idx")
    case None
    with mA[of i1] show ?thesis by (auto simp: pickup_wanted_def)
  next
    case (Some b)
    with only have "b = ''A'' \<or> b = ''C''" by blast
    then show ?thesis
    proof
      assume b: "b = ''A''"
      with Some mA[of idx] have "idx = i1 \<or> idx = i2" by simp
      then show ?thesis
        using Some b A act optA inA lt by (auto simp: pickup_wanted_def)
    next
      assume b: "b = ''C''"
      with Some mA[of idx] have "idx \<noteq> i1" by auto
      with Some b optC show ?thesis by (simp add: pickup_wanted_def)
    qed
  qed
  have "i1 \<in> set (keys_of board)"
    using mA[of i1] by (simp add: keys_of_map_of)
  then have "set (filter (pickup_wanted board active opt) (keys_of board)) = {i1}"
    by (auto simp: w)
  moreover have "distinct (filter (pickup_wanted board active opt) (keys_of board))"
    by (simp add: distinct_keys_of)
  ultimately have "filter (pickup_wanted board active opt) (keys_of board) = [i1]"
    by (rule distinct_singleton[rotated])
  then show ?thesis by (simp add: boardPickups_wanted)
qed

text \<open>
  C6. While the board is open and a solution is accepted, the board slots flagged as
  pickup are, in ascending order of slot index, those whose bounty is in the accepted
  solution and for which the active slots and the lower-index board slots holding the
  same bounty do not yet reach the count the accepted solution allows; a board bounty
  that is not in the accepted solution is never flagged. With \<open>A\<close> accepted twice and
  \<open>B\<close> once, \<open>A\<close> active once and a board offering \<open>A\<close>, \<open>A\<close> and \<open>C\<close>, exactly the
  first board slot holding \<open>A\<close> is flagged.
\<close>

theorem pickup_indicators:
  "boardPickups_of True board active opt = filter (pickup_wanted board active opt) (keys_of board)
   \<and> sorted (boardPickups_of True board active opt)
   \<and> distinct (boardPickups_of True board active opt)
   \<and> (\<forall>idx b. idx \<in> set (boardPickups_of True board active opt) \<and> map_of board idx = Some b
         \<longrightarrow> b \<in> set opt)
   \<and> (slots_holding board ''A'' = [i1, i2] \<and> slots_holding board ''C'' = [c]
       \<and> (\<forall>idx b. map_of board idx = Some b \<longrightarrow> b = ''A'' \<or> b = ''C'')
       \<and> length (filter (\<lambda>b. b = ''A'') (values_of active)) = 1
       \<and> length (filter (\<lambda>b. b = ''A'') opt) = 2
       \<and> length (filter (\<lambda>b. b = ''B'') opt) = 1
       \<and> ''C'' \<notin> set opt
       \<longrightarrow> boardPickups_of True board active opt = [i1] \<and> i1 < i2)"
proof (intro conjI)
  show "boardPickups_of True board active opt
          = filter (pickup_wanted board active opt) (keys_of board)"
    by (rule boardPickups_wanted)
  show "sorted (boardPickups_of True board active opt)"
    by (simp add: boardPickups_wanted sorted_wrt_filter sorted_keys_of)
  show "distinct (boardPickups_of True board active opt)"
    by (simp add: boardPickups_wanted distinct_keys_of)
  show "\<forall>idx b. idx \<in> set (boardPickups_of True board active opt) \<and> map_of board idx = Some b
         \<longrightarrow> b \<in> set opt"
    by (auto simp: boardPickups_wanted pickup_wanted_def)
  show "slots_holding board ''A'' = [i1, i2] \<and> slots_holding board ''C'' = [c]
       \<and> (\<forall>idx b. map_of board idx = Some b \<longrightarrow> b = ''A'' \<or> b = ''C'')
       \<and> length (filter (\<lambda>b. b = ''A'') (values_of active)) = 1
       \<and> length (filter (\<lambda>b. b = ''A'') opt) = 2
       \<and> length (filter (\<lambda>b. b = ''B'') opt) = 1
       \<and> ''C'' \<notin> set opt
       \<longrightarrow> boardPickups_of True board active opt = [i1] \<and> i1 < i2"
  proof
    assume a: "slots_holding board ''A'' = [i1, i2] \<and> slots_holding board ''C'' = [c]
       \<and> (\<forall>idx b. map_of board idx = Some b \<longrightarrow> b = ''A'' \<or> b = ''C'')
       \<and> length (filter (\<lambda>b. b = ''A'') (values_of active)) = 1
       \<and> length (filter (\<lambda>b. b = ''A'') opt) = 2
       \<and> length (filter (\<lambda>b. b = ''B'') opt) = 1
       \<and> ''C'' \<notin> set opt"
    then have "boardPickups_of True board active opt = [i1]"
      by (intro pickup_example_general[of board i1 i2 c active opt]) simp_all
    moreover have "i1 < i2"
      using a sorted_slots_holding[of board "''A''"] distinct_slots_holding[of board "''A''"]
      by auto
    ultimately show "boardPickups_of True board active opt = [i1] \<and> i1 < i2" by simp
  qed
qed

theorem pickup_indicators_witness:
  "boardPickups_of True board_AAC active_A optimal_AAB = [1]
   \<and> 3 \<notin> set (boardPickups_of True board_AAC active_A optimal_AAB)"
proof -
  have k: "keys_of board_AAC = [1, 2, 3]"
    by (simp add: keys_of_def board_AAC_def)
  have h: "slots_holding board_AAC ''A'' = [1, 2]" "slots_holding board_AAC ''C'' = [3]"
    by (simp_all add: slots_holding_def k) (simp_all add: board_AAC_def)
  have m: "\<forall>idx b. map_of board_AAC idx = Some b \<longrightarrow> b = ''A'' \<or> b = ''C''"
    by (auto simp: board_AAC_def split: if_splits)
  have v: "values_of active_A = [''A'']"
    by (simp add: values_of_def keys_of_def active_A_def map_filter_simps)
  have c: "length (filter (\<lambda>b. b = ''A'') optimal_AAB) = 2"
    "length (filter (\<lambda>b. b = ''B'') optimal_AAB) = 1" "''C'' \<notin> set optimal_AAB"
    by (simp_all add: optimal_AAB_def)
  note p = pickup_indicators[of board_AAC active_A optimal_AAB 1 2 3]
  from p[THEN conjunct2, THEN conjunct2, THEN conjunct2, THEN conjunct2] h m v c
  have "boardPickups_of True board_AAC active_A optimal_AAB = [1]" by simp
  then show ?thesis by simp
qed

section \<open>Board persistence\<close>

lemma updatedBoard_step_map_of:
  "map_of (updatedBoard_step board det mt acc k) idx =
     (if idx = k then
        (case map_of det k of
           None \<Rightarrow> map_of acc k
         | Some new \<Rightarrow>
             (case map_of board k of
                None \<Rightarrow> Some new
              | Some old \<Rightarrow>
                  if old = [] \<or> mt k = Some Exact \<or> new = old then Some new
                  else map_of acc k))
      else map_of acc idx)"
  by (auto simp: updatedBoard_step_def split: option.splits)

lemma updatedBoard_fold_map_of:
  "map_of (foldl (updatedBoard_step board det mt) acc ks) idx =
     (if idx \<in> set ks then
        (case map_of det idx of
           None \<Rightarrow> map_of acc idx
         | Some new \<Rightarrow>
             (case map_of board idx of
                None \<Rightarrow> Some new
              | Some old \<Rightarrow>
                  if old = [] \<or> mt idx = Some Exact \<or> new = old then Some new
                  else map_of acc idx))
      else map_of acc idx)"
proof (induction ks arbitrary: acc)
  case Nil
  then show ?case by simp
next
  case (Cons k ks)
  show ?case
    using Cons.IH[of "updatedBoard_step board det mt acc k"]
    by (auto simp: updatedBoard_step_map_of split: option.splits)
qed

lemma map_of_filter_keys:
  "map_of (filter (\<lambda>(i, b). i \<in> K) xs) idx = (if idx \<in> K then map_of xs idx else None)"
  by (induction xs) auto

lemma updatedBoard_of_map_of:
  "map_of (updatedBoard_of True board det mt) idx =
     (case map_of det idx of
        Some new \<Rightarrow>
          (case map_of board idx of
             None \<Rightarrow> Some new
           | Some old \<Rightarrow>
               if old = [] \<or> mt idx = Some Exact \<or> new = old then Some new else Some old)
      | None \<Rightarrow>
          if length (keys_of det) < length (keys_of board) then None else map_of board idx)"
proof -
  define merged where
    "merged = foldl (updatedBoard_step board det mt) board (keys_of det)"
  have m: "map_of merged idx =
     (case map_of det idx of
        Some new \<Rightarrow>
          (case map_of board idx of
             None \<Rightarrow> Some new
           | Some old \<Rightarrow>
               if old = [] \<or> mt idx = Some Exact \<or> new = old then Some new else Some old)
      | None \<Rightarrow> map_of board idx)"
    unfolding merged_def updatedBoard_fold_map_of
    by (cases "map_of det idx") (simp_all add: keys_of_map_of split: option.splits)
  have f: "map_of (filter (\<lambda>(i, b). i \<in> set (keys_of det)) merged) idx =
             (if map_of det idx = None then None else map_of merged idx)"
    unfolding map_of_filter_keys by (simp add: keys_of_map_of)
  have u: "updatedBoard_of True board det mt =
             (if length (keys_of det) < length (keys_of board)
              then filter (\<lambda>(i, b). i \<in> set (keys_of det)) merged else merged)"
    unfolding updatedBoard_of_def merged_def by (simp add: Let_def)
  show ?thesis
  proof (cases "length (keys_of det) < length (keys_of board)")
    case True
    then have "map_of (updatedBoard_of True board det mt) idx =
                 (if map_of det idx = None then None else map_of merged idx)"
      unfolding u using f by simp
    then show ?thesis
      using True by (cases "map_of det idx") (simp_all add: m)
  next
    case False
    then have "map_of (updatedBoard_of True board det mt) idx = map_of merged idx"
      unfolding u by simp
    then show ?thesis
      using False by (cases "map_of det idx") (simp_all add: m)
  qed
qed

text \<open>
  Without an accepted solution the tick stores the detections as they are: slot 1 held
  \<open>X\<close>, the tick reads \<open>Y\<close> there by a fuzzy match, and the slot holds \<open>Y\<close> afterwards.
\<close>

theorem fuzzy_detection_replaces_without_solution:
  "map_of board_X 1 = Some ''X''
   \<and> map_of detected_Y 1 = Some ''Y''
   \<and> all_fuzzy 1 = Some Fuzzy
   \<and> map_of (boardBounties_after_tick [] True board_X detected_Y all_fuzzy) 1 = Some ''Y''"
  by (simp add: boardBounties_after_tick_def board_X_def detected_Y_def all_fuzzy_def)

text \<open>
  C10 (amended). While the board is open and a solution is accepted, a board slot that
  holds a bounty comes to hold a different one only when that one is detected in the
  slot by an exact match; a detection that is not exact and disagrees with the stored
  bounty leaves the slot as it is; and a slot that was empty takes any detection, exact
  or fuzzy.
\<close>

theorem board_slot_persistence:
  "opt \<noteq> [] \<longrightarrow>
     (map_of board idx = Some old \<and> old \<noteq> []
        \<and> map_of (boardBounties_after_tick opt True board det mt) idx = Some b \<and> b \<noteq> old
        \<longrightarrow> map_of det idx = Some b \<and> mt idx = Some Exact)
     \<and> (map_of board idx = Some old \<and> old \<noteq> [] \<and> map_of det idx = Some new \<and> new \<noteq> old
          \<and> mt idx \<noteq> Some Exact
        \<longrightarrow> map_of (boardBounties_after_tick opt True board det mt) idx = Some old)
     \<and> ((map_of board idx = None \<or> map_of board idx = Some []) \<and> map_of det idx = Some new
        \<longrightarrow> map_of (boardBounties_after_tick opt True board det mt) idx = Some new)"
proof
  assume "opt \<noteq> []"
  then have a: "boardBounties_after_tick opt True board det mt = updatedBoard_of True board det mt"
    by (simp add: boardBounties_after_tick_def)
  have c: "map_of (boardBounties_after_tick opt True board det mt) idx =
     (case map_of det idx of
        Some new \<Rightarrow>
          (case map_of board idx of
             None \<Rightarrow> Some new
           | Some old \<Rightarrow>
               if old = [] \<or> mt idx = Some Exact \<or> new = old then Some new else Some old)
      | None \<Rightarrow>
          if length (keys_of det) < length (keys_of board) then None else map_of board idx)"
    unfolding a by (rule updatedBoard_of_map_of)
  have 1: "map_of det idx = Some b \<and> mt idx = Some Exact"
    if "map_of board idx = Some old" "old \<noteq> []"
      "map_of (boardBounties_after_tick opt True board det mt) idx = Some b" "b \<noteq> old"
  proof (cases "map_of det idx")
    case None
    with that c show ?thesis by (simp split: if_splits)
  next
    case (Some n)
    with that c show ?thesis by (simp split: if_splits)
  qed
  have 2: "map_of (boardBounties_after_tick opt True board det mt) idx = Some old"
    if "map_of board idx = Some old" "old \<noteq> []" "map_of det idx = Some new" "new \<noteq> old"
      "mt idx \<noteq> Some Exact"
    using that c by simp
  have 3: "map_of (boardBounties_after_tick opt True board det mt) idx = Some new"
    if "map_of board idx = None \<or> map_of board idx = Some []" "map_of det idx = Some new"
    using that c by auto
  from 1 2 3 show "(map_of board idx = Some old \<and> old \<noteq> []
        \<and> map_of (boardBounties_after_tick opt True board det mt) idx = Some b \<and> b \<noteq> old
        \<longrightarrow> map_of det idx = Some b \<and> mt idx = Some Exact)
     \<and> (map_of board idx = Some old \<and> old \<noteq> [] \<and> map_of det idx = Some new \<and> new \<noteq> old
          \<and> mt idx \<noteq> Some Exact
        \<longrightarrow> map_of (boardBounties_after_tick opt True board det mt) idx = Some old)
     \<and> ((map_of board idx = None \<or> map_of board idx = Some []) \<and> map_of det idx = Some new
        \<longrightarrow> map_of (boardBounties_after_tick opt True board det mt) idx = Some new)"
    by blast
qed

theorem board_slot_persistence_witness:
  "map_of (boardBounties_after_tick [''X''] True board_X detected_Y all_fuzzy) 1 = Some ''X''
   \<and> map_of (boardBounties_after_tick [''X''] True [] detected_Y all_fuzzy) 1 = Some ''Y''"
proof -
  have o: "[''X''] \<noteq> ([]::string list)" by simp
  note p = board_slot_persistence[of "[''X'']" board_X 1 "''X''" detected_Y all_fuzzy "''X''" "''Y''",
      rule_format, OF o]
  note q = board_slot_persistence[of "[''X'']" "[]" 1 "''X''" detected_Y all_fuzzy "''X''" "''Y''",
      rule_format, OF o]
  have a: "map_of (boardBounties_after_tick [''X''] True board_X detected_Y all_fuzzy) 1 = Some ''X''"
    by (rule p[THEN conjunct2, THEN conjunct1, rule_format])
       (simp add: board_X_def detected_Y_def all_fuzzy_def)
  have b: "map_of (boardBounties_after_tick [''X''] True [] detected_Y all_fuzzy) 1 = Some ''Y''"
    by (rule q[THEN conjunct2, THEN conjunct2, rule_format])
       (simp add: detected_Y_def)
  from a b show ?thesis by simp
qed

section \<open>Dispatch to the worker pool\<close>

lemma js_insert_not_Nil: "js_insert cmp x ys \<noteq> []"
  by (cases ys) simp_all

lemma js_sort_Nil_iff: "js_sort cmp xs = [] \<longleftrightarrow> xs = []"
  by (cases xs) (simp_all add: js_sort_def js_insert_not_Nil)

lemma distribute_prefix:
  assumes "0 < n" "m \<le> length tasks"
  shows "foldl (\<lambda>chunks i. chunks[i mod n := chunks ! (i mod n) @ [tasks ! i]])
           (replicate n []) [0..<m]
         = map (\<lambda>j. map (\<lambda>i. tasks ! i) (filter (\<lambda>i. i mod n = j) [0..<m])) [0..<n]"
  using assms(2)
proof (induction m)
  case 0
  show ?case by (simp add: map_replicate_const)
next
  case (Suc m)
  let ?f = "\<lambda>m j. map (\<lambda>i. tasks ! i) (filter (\<lambda>i. i mod n = j) [0..<m])"
  from Suc have IH: "foldl (\<lambda>chunks i. chunks[i mod n := chunks ! (i mod n) @ [tasks ! i]])
           (replicate n []) [0..<m] = map (?f m) [0..<n]"
    by simp
  have r: "m mod n < n" using assms(1) by simp
  have "(map (?f m) [0..<n])[m mod n := map (?f m) [0..<n] ! (m mod n) @ [tasks ! m]]
          = map (?f (Suc m)) [0..<n]"
  proof (rule nth_equalityI)
    show "length ((map (?f m) [0..<n])[m mod n := map (?f m) [0..<n] ! (m mod n) @ [tasks ! m]])
            = length (map (?f (Suc m)) [0..<n])"
      by simp
  next
    fix j
    assume "j < length ((map (?f m) [0..<n])[m mod n := map (?f m) [0..<n] ! (m mod n) @ [tasks ! m]])"
    then have j: "j < n" by simp
    show "(map (?f m) [0..<n])[m mod n := map (?f m) [0..<n] ! (m mod n) @ [tasks ! m]] ! j
            = map (?f (Suc m)) [0..<n] ! j"
      using j r by (cases "j = m mod n") (simp_all add: nth_list_update)
  qed
  then show ?case by (simp add: IH)
qed

lemma distribute_round_robin:
  "0 < n \<Longrightarrow> distribute n tasks = map (round_robin n tasks) [0..<n]"
  unfolding distribute_def round_robin_def by (rule distribute_prefix) simp_all

lemma runOnProcess_shard:
  "idx < length (processes pool) \<Longrightarrow>
     runOnProcess pool tasks idx thr timeoutMs False
       = Inr (Many (shard_contribution ((processes pool ! idx) tasks thr)))"
  by (simp add: runOnProcess_def split: worker_reply.splits option.splits list.splits)

lemma promise_all_map_Inr: "promise_all (map (\<lambda>x. Inr (f x)) xs) = Inr (map f xs)"
  by (induction xs) simp_all

lemma zip_map_upt: "zip (map f [0..<n]) [0..<n] = map (\<lambda>j. (f j, j)) [0..<n]"
  by (simp add: zip_map1 zip_same_conv_map)

lemma findBest_single:
  assumes "tasksToProcess opts comboTasks = tasks" "tasks \<noteq> []" "length tasks \<le> 20"
  shows "findBest pool opts comboTasks timeoutMs
           = runOnProcess pool tasks 0 (pruningThreshold opts) timeoutMs True"
  using assms by (simp add: findBest_def Let_def)

lemma findBest_sharded:
  assumes pool: "length (processes pool) = maxProcesses pool" "0 < maxProcesses pool"
    and tasks: "tasksToProcess opts comboTasks = tasks" "20 < length tasks"
    and n: "n = min (maxProcesses pool) (ceil_div (length tasks) 10)"
    and merged: "merged = concat (map (\<lambda>j. shard_contribution
                     ((processes pool ! j) (round_robin n tasks j) (pruningThreshold opts)))
                   [0..<n])"
  shows "findBest pool opts comboTasks timeoutMs
           = (case js_sort by_efficiency merged of
                [] \<Rightarrow> Inl NoValidRoutes
              | best # others \<Rightarrow> Inr (Single (as_FindBestResult best)))"
proof -
  have c: "0 < ceil_div (length tasks) 10"
    using tasks(2) by (simp add: ceil_div_def)
  with pool n have n0: "0 < n" and nle: "n \<le> length (processes pool)" by simp_all
  have chunks: "distribute n tasks = map (round_robin n tasks) [0..<n]"
    using n0 by (rule distribute_round_robin)
  have ne: "tasks \<noteq> []" using tasks(2) by auto
  let ?run = "\<lambda>(chunk, idx). runOnProcess pool chunk (idx mod length (processes pool))
                   (pruningThreshold opts) timeoutMs False"
  let ?shard = "\<lambda>j. Many (shard_contribution
                   ((processes pool ! j) (round_robin n tasks j) (pruningThreshold opts)))"
  have "map ?run (zip (distribute n tasks) [0..<length (distribute n tasks)])
          = map (\<lambda>j. ?run (round_robin n tasks j, j)) [0..<n]"
    by (simp add: chunks zip_map_upt)
  also have "\<dots> = map (\<lambda>j. Inr (?shard j)) [0..<n]"
  proof (rule map_cong[OF refl])
    fix j
    assume "j \<in> set [0..<n]"
    with nle have j: "j < length (processes pool)" by simp
    then have "j mod length (processes pool) = j" by simp
    with j show "?run (round_robin n tasks j, j) = Inr (?shard j)"
      by (simp add: runOnProcess_shard)
  qed
  finally have promises:
    "map ?run (zip (distribute n tasks) [0..<length (distribute n tasks)])
       = map (\<lambda>j. Inr (?shard j)) [0..<n]" .
  have all: "promise_all (map ?run (zip (distribute n tasks) [0..<length (distribute n tasks)]))
               = Inr (map ?shard [0..<n])"
    unfolding promises by (rule promise_all_map_Inr)
  have flat: "concat (map flat_results (map ?shard [0..<n])) = merged"
    unfolding merged by (simp add: comp_def)
  have "findBest pool opts comboTasks timeoutMs
          = (case promise_all (map ?run (zip (distribute n tasks) [0..<length (distribute n tasks)])) of
               Inl e \<Rightarrow> Inl e
             | Inr chunkResults \<Rightarrow>
                 (case js_sort by_efficiency (concat (map flat_results chunkResults)) of
                    [] \<Rightarrow> Inl NoValidRoutes
                  | best # others \<Rightarrow> Inr (Single (as_FindBestResult best))))"
    unfolding findBest_def Let_def tasks(1) n[symmetric]
    using tasks(2) n0 ne by simp
  then have "findBest pool opts comboTasks timeoutMs
          = (case js_sort by_efficiency (concat (map flat_results (map ?shard [0..<n]))) of
               [] \<Rightarrow> Inl NoValidRoutes
             | best # others \<Rightarrow> Inr (Single (as_FindBestResult best)))"
    unfolding all by (simp only: sum.case)
  then show ?thesis
    unfolding flat .
qed

text \<open>
  C8. With the pool initialised and at least one candidate left: up to 20 candidates
  go to one process, and its timeout or its error rejects the search; more than 20
  candidates are split round-robin over min(pool size, ceil(count / 10)) processes, a
  shard that times out or answers with an error adds nothing to the merge and does not
  reject the search, and the search is rejected, with "no valid routes found", exactly
  when the merge is empty.
\<close>

theorem pool_dispatch:
  "length (processes pool) = maxProcesses pool \<and> 0 < maxProcesses pool
   \<and> tasksToProcess opts comboTasks = tasks \<and> tasks \<noteq> [] \<longrightarrow>
     (length tasks \<le> 20 \<longrightarrow>
        findBest pool opts comboTasks timeoutMs
          = runOnProcess pool tasks 0 (pruningThreshold opts) timeoutMs True
        \<and> ((processes pool ! 0) tasks (pruningThreshold opts) = NoReplyBeforeTimeout \<longrightarrow>
             findBest pool opts comboTasks timeoutMs = Inl (ProcessTimedOut timeoutMs))
        \<and> (\<forall>msg. (processes pool ! 0) tasks (pruningThreshold opts) = Reply msg \<and> \<not> ok msg \<longrightarrow>
             (\<exists>message. findBest pool opts comboTasks timeoutMs = Inl (ProcessError message))))
     \<and> (20 < length tasks \<longrightarrow>
        (let n = min (maxProcesses pool) (ceil_div (length tasks) 10);
             merged = concat (map (\<lambda>j. shard_contribution
                        ((processes pool ! j) (round_robin n tasks j) (pruningThreshold opts)))
                      [0..<n])
         in distribute n tasks = map (round_robin n tasks) [0..<n]
            \<and> findBest pool opts comboTasks timeoutMs
                = (case js_sort by_efficiency merged of
                     [] \<Rightarrow> Inl NoValidRoutes
                   | best # others \<Rightarrow> Inr (Single (as_FindBestResult best)))
            \<and> ((\<exists>e. findBest pool opts comboTasks timeoutMs = Inl e) \<longleftrightarrow> merged = [])
            \<and> (merged = [] \<longrightarrow> findBest pool opts comboTasks timeoutMs = Inl NoValidRoutes)))"
proof (intro impI conjI)
  assume a: "length (processes pool) = maxProcesses pool \<and> 0 < maxProcesses pool
   \<and> tasksToProcess opts comboTasks = tasks \<and> tasks \<noteq> []"
  assume le: "length tasks \<le> 20"
  from a le show s: "findBest pool opts comboTasks timeoutMs
          = runOnProcess pool tasks 0 (pruningThreshold opts) timeoutMs True"
    by (intro findBest_single) simp_all
  from a have p0: "0 < length (processes pool)" by simp
  show "findBest pool opts comboTasks timeoutMs = Inl (ProcessTimedOut timeoutMs)"
    if "(processes pool ! 0) tasks (pruningThreshold opts) = NoReplyBeforeTimeout"
    using that p0 by (simp add: s runOnProcess_def)
  show "\<forall>msg. (processes pool ! 0) tasks (pruningThreshold opts) = Reply msg \<and> \<not> ok msg \<longrightarrow>
             (\<exists>message. findBest pool opts comboTasks timeoutMs = Inl (ProcessError message))"
    using p0 by (simp add: s runOnProcess_def)
next
  assume a: "length (processes pool) = maxProcesses pool \<and> 0 < maxProcesses pool
   \<and> tasksToProcess opts comboTasks = tasks \<and> tasks \<noteq> []"
  assume gt: "20 < length tasks"
  define n where "n = min (maxProcesses pool) (ceil_div (length tasks) 10)"
  define merged where "merged = concat (map (\<lambda>j. shard_contribution
                        ((processes pool ! j) (round_robin n tasks j) (pruningThreshold opts)))
                      [0..<n])"
  have "0 < ceil_div (length tasks) 10"
    using gt by (simp add: ceil_div_def)
  with a have n0: "0 < n" by (simp add: n_def)
  have 1: "distribute n tasks = map (round_robin n tasks) [0..<n]"
    using n0 by (rule distribute_round_robin)
  have 2: "findBest pool opts comboTasks timeoutMs
             = (case js_sort by_efficiency merged of
                  [] \<Rightarrow> Inl NoValidRoutes
                | best # others \<Rightarrow> Inr (Single (as_FindBestResult best)))"
    using a gt by (intro findBest_sharded[where n = n]) (simp_all add: n_def merged_def)
  have 3: "(\<exists>e. findBest pool opts comboTasks timeoutMs = Inl e) \<longleftrightarrow> merged = []"
    unfolding 2 using js_sort_Nil_iff[of by_efficiency merged]
    by (cases "js_sort by_efficiency merged") simp_all
  have 4: "merged = [] \<longrightarrow> findBest pool opts comboTasks timeoutMs = Inl NoValidRoutes"
    unfolding 2 by (simp add: js_sort_def)
  from 1 2 3 4 show "let n = min (maxProcesses pool) (ceil_div (length tasks) 10);
             merged = concat (map (\<lambda>j. shard_contribution
                        ((processes pool ! j) (round_robin n tasks j) (pruningThreshold opts)))
                      [0..<n])
         in distribute n tasks = map (round_robin n tasks) [0..<n]
            \<and> findBest pool opts comboTasks timeoutMs
                = (case js_sort by_efficiency merged of
                     [] \<Rightarrow> Inl NoValidRoutes
                   | best # others \<Rightarrow> Inr (Single (as_FindBestResult best)))
            \<and> ((\<exists>e. findBest pool opts comboTasks timeoutMs = Inl e) \<longleftrightarrow> merged = [])
            \<and> (merged = [] \<longrightarrow> findBest pool opts comboTasks timeoutMs = Inl NoValidRoutes)"
    unfolding Let_def n_def[symmetric] merged_def[symmetric] by simp
qed

lemma js_sort_replicate:
  "\<not> js_gt (Fin 0) (cmp x x) \<Longrightarrow> js_sort cmp (replicate n x) = replicate n x"
proof (induction n)
  case 0
  show ?case by (simp add: js_sort_def)
next
  case (Suc n)
  then have "js_sort cmp (replicate n x) = replicate n x" by simp
  moreover have "js_insert cmp x (replicate n x) = x # replicate n x"
    using Suc.prems by (cases n) simp_all
  ultimately show ?case by (simp add: js_sort_def)
qed

theorem pool_dispatch_witness:
  "findBest pool_of_two unbounded (replicate 21 task_A) 20000
     = Inr (Single (as_FindBestResult result_A))
   \<and> findBest pool_of_two unbounded [task_A] 20000 = Inl (ProcessTimedOut 20000)"
proof -
  have p: "length (processes pool_of_two) = maxProcesses pool_of_two"
    "0 < maxProcesses pool_of_two"
    by (simp_all add: pool_of_two_def)
  have t21: "tasksToProcess unbounded (replicate 21 task_A) = replicate 21 task_A"
    by (simp add: tasksToProcess_def unbounded_def js_sort_replicate task_A_def
        round_double_def)
  have t1: "tasksToProcess unbounded [task_A] = [task_A]"
    by (simp add: tasksToProcess_def unbounded_def js_sort_def)
  have n: "min (maxProcesses pool_of_two) (ceil_div (length (replicate 21 task_A)) 10) = 2"
    by (simp add: pool_of_two_def ceil_div_def)
  have u: "[0..<2] = [0, 1]" by (simp add: upt_rec)
  have m: "concat (map (\<lambda>j. shard_contribution
              ((processes pool_of_two ! j) (round_robin 2 (replicate 21 task_A) j)
                 (pruningThreshold unbounded))) [0..<2]) = [result_A]"
    by (simp add: u pool_of_two_def silent_process_def answering_process_def)
  note d = pool_dispatch[of pool_of_two unbounded "replicate 21 task_A" "replicate 21 task_A" 20000,
      rule_format]
  have "findBest pool_of_two unbounded (replicate 21 task_A) 20000
          = (case js_sort by_efficiency [result_A] of
               [] \<Rightarrow> Inl NoValidRoutes
             | best # others \<Rightarrow> Inr (Single (as_FindBestResult best)))"
    using d p t21 unfolding Let_def n m by simp
  then have 1: "findBest pool_of_two unbounded (replicate 21 task_A) 20000
                  = Inr (Single (as_FindBestResult result_A))"
    by (simp add: js_sort_def)
  note s = pool_dispatch[of pool_of_two unbounded "[task_A]" "[task_A]" 20000,
      THEN mp, THEN conjunct1, THEN mp, THEN conjunct2, THEN conjunct1, THEN mp]
  have 2: "findBest pool_of_two unbounded [task_A] 20000 = Inl (ProcessTimedOut 20000)"
    by (rule s) (simp_all add: p t1, simp add: pool_of_two_def silent_process_def)
  from 1 2 show ?thesis by simp
qed

end
